theory Spec2Isabelle
  imports Complex_Main
begin

section \<open>Arrays, errors and the external collaborators\<close>

text \<open>
  The development follows \<^verbatim>\<open>src/train_utils.py\<close>. Array entries are real numbers: the
  rounding of the numeric backend is not part of the model. A rank-1 array is a list, a
  rank-2 array a list of rows, a rank-3 array a list of matrices. Arrays with an axis of
  length zero in front of other axes are not representable by nested lists; the theorems
  say where they assume non-empty axes.
\<close>

datatype error =
    ZeroDivisionError    \<comment> \<open>Python: integer modulo or integer division by zero\<close>
  | ValueError           \<comment> \<open>\<^verbatim>\<open>jnp.concatenate\<close> of no arrays, \<^verbatim>\<open>jnp.argmax\<close> over an empty axis\<close>
  | IncompatibleShapes   \<comment> \<open>shapes that do not broadcast, or a reshape to a size that does not fit\<close>

type_synonym mat = "real list list"
type_synonym ten = "real list list list"

text \<open>
  Broadcasting of a binary elementwise operation along the leading axis, as the array
  library does it: equal lengths are paired, an axis of length one is stretched, every
  other combination raises.
\<close>

definition broadcast0 :: "('a \<Rightarrow> 'b \<Rightarrow> 'c) \<Rightarrow> 'a list \<Rightarrow> 'b list \<Rightarrow> error + 'c list" where
  "broadcast0 f xs ys =
     (if length xs = length ys then Inr (map2 f xs ys)
      else if length xs = 1 then Inr (map (f (hd xs)) ys)
      else if length ys = 1 then Inr (map (\<lambda>x. f x (hd ys)) xs)
      else Inl IncompatibleShapes)"

text \<open>\<^verbatim>\<open>jnp.argmax(row)\<close>: the index of the first maximal entry.\<close>

fun argmax_from :: "nat \<Rightarrow> real \<Rightarrow> nat \<Rightarrow> real list \<Rightarrow> nat" where
  "argmax_from bi bv i [] = bi"
| "argmax_from bi bv i (x # xs) =
     (if bv < x then argmax_from i x (Suc i) xs else argmax_from bi bv (Suc i) xs)"

definition argmax_row :: "real list \<Rightarrow> nat" where
  "argmax_row r = (case r of [] \<Rightarrow> 0 | x # xs \<Rightarrow> argmax_from 0 x 1 xs)"

text \<open>\<^verbatim>\<open>jnp.argmax(logits, -1)\<close> on a rank-2 array; an empty class axis raises.\<close>

definition argmax_last :: "real list list \<Rightarrow> error + int list" where
  "argmax_last logits =
     (if \<exists>r \<in> set logits. r = [] then Inl ValueError
      else Inr (map (\<lambda>r. int (argmax_row r)) logits))"

text \<open>\<^verbatim>\<open>jnp.sum(b)\<close> of a boolean array: the number of true entries, an integer.\<close>

definition sum_bool :: "bool list \<Rightarrow> int" where
  "sum_bool bs = (\<Sum>b\<leftarrow>bs. if b then 1 else 0)"

text \<open>\<^verbatim>\<open>n_correct = jnp.sum(jnp.argmax(logits, -1) == y)\<close> (lines 66 and 122).\<close>

definition n_correct_of :: "real list list \<Rightarrow> int list \<Rightarrow> error + int" where
  "n_correct_of logits y =
     (case argmax_last logits of
        Inl e \<Rightarrow> Inl e
      | Inr preds \<Rightarrow>
          (case broadcast0 (=) preds y of
             Inl e \<Rightarrow> Inl e
           | Inr eqs \<Rightarrow> Inr (sum_bool eqs)))"

text \<open>
  What the file takes from outside: the forward function stored in the training state, the
  loss of \<^verbatim>\<open>optax\<close>, the automatic differentiation of \<^verbatim>\<open>jax\<close> and the optimizer. They are
  fields of an environment; \<^typ>\<open>'s\<close> is the training state, \<^typ>\<open>'x\<close> the input array of a
  batch, \<^typ>\<open>'g\<close> a gradient and \<^typ>\<open>'t\<close> the parameter-shaped tree of Jacobian leaves.
\<close>

datatype nd = Sc real | Ar "nd list"

record ('s, 'x, 'g, 't) env =
  apply_fn :: "'s \<Rightarrow> 'x \<Rightarrow> real list list"
    \<comment> \<open>\<^verbatim>\<open>state.apply_fn(state.params, x)\<close>, the logits \<open>[N, C]\<close>\<close>
  xent :: "real list list \<Rightarrow> int list \<Rightarrow> real list"
    \<comment> \<open>\<^verbatim>\<open>optax.softmax_cross_entropy_with_integer_labels\<close>, the per-item loss \<open>[N]\<close>\<close>
  grad_loss :: "'s \<Rightarrow> 'x \<Rightarrow> int list \<Rightarrow> 'g"
    \<comment> \<open>the gradient part of \<^verbatim>\<open>jax.value_and_grad(model_loss_fn, has_aux=True)\<close>\<close>
  apply_gradients :: "'s \<Rightarrow> 'g \<Rightarrow> 's"
    \<comment> \<open>\<^verbatim>\<open>state.apply_gradients(grads=d_loss)\<close>\<close>
  jacrev_model :: "'s \<Rightarrow> 'x \<Rightarrow> 't"
    \<comment> \<open>\<^verbatim>\<open>jax.jacrev(model_fn)(state.params, x)\<close>\<close>
  tree_leaves :: "'t \<Rightarrow> nd list"
    \<comment> \<open>\<^verbatim>\<open>tree_util.tree_leaves\<close>\<close>
  hess_loss :: "real list \<Rightarrow> int \<Rightarrow> mat"
    \<comment> \<open>\<^verbatim>\<open>jax.jacfwd(jax.grad(loss_fn))\<close> at one item's logits and label, \<open>[C, C]\<close>\<close>

section \<open>The step functions\<close>

definition train_step ::
  "('s, 'x, 'g, 't) env \<Rightarrow> 's \<Rightarrow> 'x \<times> int list \<Rightarrow> error + ('s \<times> real list \<times> int)" where
  "train_step E state batch =
     (let (x, y) = batch;
          logits = apply_fn E state x;
          loss = xent E logits y;
          d_loss = grad_loss E state x y
      in case n_correct_of logits y of
           Inl e \<Rightarrow> Inl e
         | Inr n_correct \<Rightarrow> Inr (apply_gradients E state d_loss, loss, n_correct))"

definition test_step ::
  "('s, 'x, 'g, 't) env \<Rightarrow> 's \<Rightarrow> 'x \<times> int list \<Rightarrow> error + (real list \<times> int)" where
  "test_step E state batch =
     (let (x, y) = batch;
          logits = apply_fn E state x;
          loss = xent E logits y
      in case n_correct_of logits y of
           Inl e \<Rightarrow> Inl e
         | Inr n_correct \<Rightarrow> Inr (loss, n_correct))"

section \<open>The per-item GGN\<close>

text \<open>Row-major flattening of an array of any rank.\<close>

fun flatten :: "nd \<Rightarrow> real list" where
  "flatten (Sc r) = [r]"
| "flatten (Ar xs) = concat (map flatten xs)"

text \<open>
  \<^verbatim>\<open>x.reshape(N, C, -1)\<close>: the row-major entries of \<open>x\<close>, cut into \<open>N * C\<close> rows of equal
  length. The length of the last axis is inferred as the size of \<open>x\<close> divided by \<open>N * C\<close>,
  an integer division that raises \<^verbatim>\<open>ZeroDivisionError\<close> when \<open>N * C = 0\<close>, whatever the size
  of \<open>x\<close>; a size that is not a multiple of \<open>N * C\<close> is a shape error.
\<close>

definition reshape_NC :: "nat \<Rightarrow> nat \<Rightarrow> nd \<Rightarrow> error + ten" where
  "reshape_NC N C x =
     (let flat = flatten x; sz = length flat
      in if N * C = 0 then Inl ZeroDivisionError
         else if sz mod (N * C) \<noteq> 0 then Inl IncompatibleShapes
         else let d = sz div (N * C)
              in Inr (map (\<lambda>n. map (\<lambda>a. take d (drop ((n * C + a) * d) flat)) [0..<C]) [0..<N]))"

fun sequence :: "(error + 'a) list \<Rightarrow> error + 'a list" where
  "sequence [] = Inr []"
| "sequence (r # rs) =
     (case r of
        Inl e \<Rightarrow> Inl e
      | Inr v \<Rightarrow> (case sequence rs of Inl e \<Rightarrow> Inl e | Inr vs \<Rightarrow> Inr (v # vs)))"

text \<open>
  \<^verbatim>\<open>jnp.concatenate(leaves, axis=2)\<close> of arrays of shapes \<open>[N, C, d\<^sub>k]\<close>: for every \<open>n\<close> and
  \<open>a\<close>, the rows of the leaves one after the other. No array to concatenate raises.
\<close>

definition concatenate_axis2 :: "nat \<Rightarrow> nat \<Rightarrow> ten list \<Rightarrow> error + ten" where
  "concatenate_axis2 N C leaves =
     (if leaves = [] then Inl ValueError
      else Inr (map (\<lambda>n. map (\<lambda>a. concat (map (\<lambda>l. l ! n ! a) leaves)) [0..<C]) [0..<N]))"

text \<open>
  \<^verbatim>\<open>jnp.einsum("nax,nab,nby->nxy", J, H, J)\<close> for \<open>J\<close> of shape \<open>[N, C, D]\<close> and \<open>H\<close> of
  shape \<open>[N, C, C]\<close>: the indices \<open>a\<close> and \<open>b\<close> are summed over. In \<^verbatim>\<open>compute_ggn\<close> the two
  operands have these shapes by construction: \<open>J\<close> comes from the reshape to \<open>[N, C, -1]\<close>
  and \<open>H\<close> from mapping the Hessian of the loss over the \<open>N\<close> rows of the logits.
\<close>

definition einsum_nax_nab_nby :: "nat \<Rightarrow> nat \<Rightarrow> nat \<Rightarrow> ten \<Rightarrow> ten \<Rightarrow> ten" where
  "einsum_nax_nab_nby N C D J H =
     map (\<lambda>n. map (\<lambda>x. map (\<lambda>y.
            (\<Sum>a\<leftarrow>[0..<C]. \<Sum>b\<leftarrow>[0..<C]. J ! n ! a ! x * H ! n ! a ! b * J ! n ! b ! y))
          [0..<D]) [0..<D]) [0..<N]"

text \<open>The length of the last axis of a rank-3 array with non-empty leading axes.\<close>

definition last_dim :: "ten \<Rightarrow> nat" where
  "last_dim J = (case J of (r # _) # _ \<Rightarrow> length r | _ \<Rightarrow> 0)"

text \<open>\<^verbatim>\<open>jax.vmap(H_loss_fn)(logits, y)\<close>: the mapped axes must have one length.\<close>

definition vmap2 :: "('a \<Rightarrow> 'b \<Rightarrow> 'c) \<Rightarrow> 'a list \<Rightarrow> 'b list \<Rightarrow> error + 'c list" where
  "vmap2 f xs ys =
     (if length xs = length ys then Inr (map2 f xs ys) else Inl IncompatibleShapes)"

definition compute_ggn ::
  "('s, 'x, 'g, 't) env \<Rightarrow> 's \<Rightarrow> 'x \<times> int list \<Rightarrow> error + ten" where
  "compute_ggn E state batch =
     (let (x, y) = batch;
          logits = apply_fn E state x;
          N = length logits;
          C = (case logits of [] \<Rightarrow> 0 | r # _ \<Rightarrow> length r);
          J_model = jacrev_model E state x
      in case vmap2 (hess_loss E) logits y of
           Inl e \<Rightarrow> Inl e
         | Inr H_loss \<Rightarrow>
             (case sequence (map (reshape_NC N C) (tree_leaves E J_model)) of
                Inl e \<Rightarrow> Inl e
              | Inr leaves \<Rightarrow>
                  (case concatenate_axis2 N C leaves of
                     Inl e \<Rightarrow> Inl e
                   | Inr J \<Rightarrow> Inr (einsum_nax_nab_nby N C (last_dim J) J H_loss))))"

section \<open>Running averages of a GGN pass\<close>

text \<open>Elementwise operations on matrices of one shape, and division by a scalar.\<close>

definition madd :: "mat \<Rightarrow> mat \<Rightarrow> mat" where
  "madd A B = map2 (map2 (+)) A B"

definition msub :: "mat \<Rightarrow> mat \<Rightarrow> mat" where
  "msub A B = map2 (map2 (-)) A B"

definition mdiv :: "mat \<Rightarrow> real \<Rightarrow> mat" where
  "mdiv A c = map (map (\<lambda>v. v / c)) A"

text \<open>
  \<^verbatim>\<open>jnp.sum(G, axis=0)\<close> and \<^verbatim>\<open>jnp.mean(G, axis=0)\<close> of an array \<open>[N, D\<^sub>1, D\<^sub>2]\<close> with
  \<open>N > 0\<close>: entry \<open>(i, j)\<close> is the sum, or the mean, of the entries \<open>(i, j)\<close> of the items.
\<close>

definition sum_axis0 :: "ten \<Rightarrow> mat" where
  "sum_axis0 G =
     (case G of
        [] \<Rightarrow> []
      | g # _ \<Rightarrow> map (\<lambda>i. map (\<lambda>j. (\<Sum>h\<leftarrow>G. h ! i ! j)) [0..<length (g ! i)]) [0..<length g])"

definition mean_axis0 :: "ten \<Rightarrow> mat" where
  "mean_axis0 G = mdiv (sum_axis0 G) (real (length G))"

text \<open>
  Lines 267 to 272. The first batch is copied; afterwards
  \<^verbatim>\<open>GGN_samples + (GGN - GGN_samples) / aggregated_batch_size\<close>, whose subtraction and
  addition broadcast along the batch axis.
\<close>

definition samples_update :: "ten option \<Rightarrow> ten \<Rightarrow> int \<Rightarrow> error + ten" where
  "samples_update GGN_samples GGN aggregated_batch_size =
     (case GGN_samples of
        None \<Rightarrow> Inr GGN
      | Some S \<Rightarrow>
          (case broadcast0 msub GGN S of
             Inl e \<Rightarrow> Inl e
           | Inr diff \<Rightarrow>
               broadcast0 madd S
                 (map (\<lambda>A. mdiv A (real_of_int aggregated_batch_size)) diff)))"

text \<open>
  Lines 281 to 286, with \<open>GGN_counter\<close> already increased by the batch size. Subtracting
  \<^verbatim>\<open>GGN_total[None, :, :]\<close> stretches the total over the batch axis.
\<close>

definition total_update :: "mat option \<Rightarrow> ten \<Rightarrow> nat \<Rightarrow> mat" where
  "total_update GGN_total GGN GGN_counter =
     (case GGN_total of
        None \<Rightarrow> mean_axis0 GGN
      | Some T \<Rightarrow> madd T (mdiv (sum_axis0 (map (\<lambda>g. msub g T) GGN)) (real GGN_counter)))"

section \<open>The epoch drivers\<close>

text \<open>
  What an epoch does to the outside, in order: the calls of \<^verbatim>\<open>save_results\<close> with a samples
  aggregate (array, global step, batch count) or with the total aggregate (array, global
  step), and the application of a training step at a global step.
\<close>

datatype event =
    SaveSamples ten int int
  | SaveTotal "mat option" int
  | Step int

type_synonym ggn_acc = "nat \<times> mat option \<times> ten option"

text \<open>
  The loop of lines 259 to 286 over the batches of the GGN loader, from batch index \<open>k\<close>;
  the accumulator is \<open>(GGN_counter, GGN_total, GGN_samples)\<close>.
\<close>

fun ggn_loop ::
  "('b \<Rightarrow> error + ten) \<Rightarrow> int list \<Rightarrow> int \<Rightarrow> nat \<Rightarrow> 'b list \<Rightarrow> ggn_acc
     \<Rightarrow> event list \<times> (error + ggn_acc)" where
  "ggn_loop cg ggn_batch_sizes n_steps k [] acc = ([], Inr acc)"
| "ggn_loop cg ggn_batch_sizes n_steps k (ggn_batch # rest) acc =
     (case cg ggn_batch of
        Inl e \<Rightarrow> ([], Inl e)
      | Inr GGN \<Rightarrow>
          (case samples_update (snd (snd acc)) GGN (int k + 1) of
             Inl e \<Rightarrow> ([], Inl e)
           | Inr S \<Rightarrow>
               (let saved = (if int k + 1 \<in> set ggn_batch_sizes
                             then [SaveSamples S n_steps (int k + 1)] else []);
                    GGN_counter = fst acc + length GGN;
                    T = total_update (fst (snd acc)) GGN GGN_counter;
                    (evs, r) = ggn_loop cg ggn_batch_sizes n_steps (Suc k) rest
                                 (GGN_counter, Some T, Some S)
                in (saved @ evs, r))))"

text \<open>One GGN pass, lines 253 to 289: the loop, then the total is saved.\<close>

definition ggn_pass ::
  "('b \<Rightarrow> error + ten) \<Rightarrow> int list \<Rightarrow> int \<Rightarrow> 'b list \<Rightarrow> event list \<times> (error + ggn_acc)" where
  "ggn_pass cg ggn_batch_sizes n_steps ggn_batches =
     (let (evs, r) = ggn_loop cg ggn_batch_sizes n_steps 0 ggn_batches (0, None, None)
      in case r of
           Inl e \<Rightarrow> (evs, Inl e)
         | Inr acc \<Rightarrow> (evs @ [SaveTotal (fst (snd acc)) n_steps], Inr acc))"

text \<open>
  The condition of line 252. Python's \<^verbatim>\<open>and\<close> evaluates the modulo only when the
  comparison holds, and the modulo raises on a zero divisor. The sign of Python's
  remainder is that of \<^const>\<open>modulo\<close> on \<^typ>\<open>int\<close>.
\<close>

definition ggn_trigger :: "int \<Rightarrow> int \<Rightarrow> int \<Rightarrow> int \<Rightarrow> error + bool" where
  "ggn_trigger GGN_iter_counter n_ggn_iterations n_steps ggn_freq =
     (if GGN_iter_counter < n_ggn_iterations
      then (if ggn_freq = 0 then Inl ZeroDivisionError else Inr (n_steps mod ggn_freq = 0))
      else Inr False)"

text \<open>A data loader: its batches in order, and \<^verbatim>\<open>len(dataloader.dataset)\<close>.\<close>

record 'x DataLoader =
  batches :: "('x \<times> int list) list"
  dataset_len :: nat

type_synonym 's train_acc = "'s \<times> real list list \<times> int \<times> int \<times> int"

text \<open>
  The loop of lines 250 to 303 over the training batches; the accumulator is
  \<open>(state, loss_epoch, n_correct_epoch, GGN_iter_counter, n_steps)\<close>.
\<close>

fun train_loop ::
  "('s, 'x, 'g, 't) env \<Rightarrow> ('x \<times> int list) list \<Rightarrow> int list \<Rightarrow> int \<Rightarrow> int
     \<Rightarrow> ('x \<times> int list) list \<Rightarrow> 's train_acc \<Rightarrow> event list \<times> (error + 's train_acc)" where
  "train_loop E ggn_batches ggn_batch_sizes ggn_freq n_ggn_iterations [] acc = ([], Inr acc)"
| "train_loop E ggn_batches ggn_batch_sizes ggn_freq n_ggn_iterations (batch # rest)
     (state, loss_epoch, n_correct_epoch, GGN_iter_counter, n_steps) =
     (case ggn_trigger GGN_iter_counter n_ggn_iterations n_steps ggn_freq of
        Inl e \<Rightarrow> ([], Inl e)
      | Inr trig \<Rightarrow>
          (let (evs1, r1) =
                 (if trig
                  then (case ggn_pass (compute_ggn E state) ggn_batch_sizes n_steps ggn_batches of
                          (evs, Inl e) \<Rightarrow> (evs, Inl e)
                        | (evs, Inr _) \<Rightarrow> (evs, Inr (GGN_iter_counter + 1)))
                  else ([], Inr GGN_iter_counter))
           in case r1 of
                Inl e \<Rightarrow> (evs1, Inl e)
              | Inr GGN_iter_counter' \<Rightarrow>
                  (case train_step E state batch of
                     Inl e \<Rightarrow> (evs1, Inl e)
                   | Inr (state', loss, n_correct) \<Rightarrow>
                       (let (evs2, r2) =
                              train_loop E ggn_batches ggn_batch_sizes ggn_freq n_ggn_iterations
                                rest
                                (state', loss_epoch @ [loss], n_correct_epoch + n_correct,
                                 GGN_iter_counter', n_steps + 1)
                        in (evs1 @ [Step n_steps] @ evs2, r2)))))"

text \<open>\<^verbatim>\<open>jnp.mean(jnp.concatenate(loss_epoch))\<close>: no array to concatenate raises.\<close>

definition mean_concat :: "real list list \<Rightarrow> error + real" where
  "mean_concat loss_epoch =
     (if loss_epoch = [] then Inl ValueError
      else Inr (sum_list (concat loss_epoch) / real (length (concat loss_epoch))))"

text \<open>
  \<^verbatim>\<open>train_epoch\<close>, lines 205 to 309. The result is the trace of events and either the
  error raised or \<open>(state, loss, accuracy, n_steps, remaining GGN iterations)\<close>. The
  progress bar and the results path do not influence either and are left out.
\<close>

definition train_epoch ::
  "('s, 'x, 'g, 't) env \<Rightarrow> 's \<Rightarrow> 'x DataLoader \<Rightarrow> 'x DataLoader \<Rightarrow> int list \<Rightarrow> int \<Rightarrow> int
     \<Rightarrow> int \<Rightarrow> event list \<times> (error + ('s \<times> real \<times> real \<times> int \<times> int))" where
  "train_epoch E state train_dataloader ggn_dataloader ggn_batch_sizes ggn_freq
     n_ggn_iterations n_steps =
     (case train_loop E (batches ggn_dataloader) ggn_batch_sizes ggn_freq n_ggn_iterations
             (batches train_dataloader) (state, [], 0, 0, n_steps) of
        (evs, Inl e) \<Rightarrow> (evs, Inl e)
      | (evs, Inr (state', loss_epoch, n_correct_epoch, GGN_iter_counter, n_steps')) \<Rightarrow>
          (case mean_concat loss_epoch of
             Inl e \<Rightarrow> (evs, Inl e)
           | Inr loss \<Rightarrow>
               (evs, Inr (state', loss,
                          real_of_int n_correct_epoch / real (dataset_len train_dataloader),
                          n_steps', n_ggn_iterations - GGN_iter_counter))))"

text \<open>The loop of lines 341 to 352; the accumulator is \<open>(loss_epoch, n_correct_epoch)\<close>.\<close>

fun test_loop ::
  "('s, 'x, 'g, 't) env \<Rightarrow> 's \<Rightarrow> ('x \<times> int list) list \<Rightarrow> real list list \<times> int
     \<Rightarrow> error + (real list list \<times> int)" where
  "test_loop E state [] acc = Inr acc"
| "test_loop E state (batch # rest) (loss_epoch, n_correct_epoch) =
     (case test_step E state batch of
        Inl e \<Rightarrow> Inl e
      | Inr (loss, n_correct) \<Rightarrow>
          test_loop E state rest (loss_epoch @ [loss], n_correct_epoch + n_correct))"

definition test_epoch ::
  "('s, 'x, 'g, 't) env \<Rightarrow> 's \<Rightarrow> 'x DataLoader \<Rightarrow> error + (real \<times> real)" where
  "test_epoch E state test_dataloader =
     (case test_loop E state (batches test_dataloader) ([], 0) of
        Inl e \<Rightarrow> Inl e
      | Inr (loss_epoch, n_correct_epoch) \<Rightarrow>
          (case mean_concat loss_epoch of
             Inl e \<Rightarrow> Inl e
           | Inr loss \<Rightarrow>
               Inr (loss, real_of_int n_correct_epoch / real (dataset_len test_dataloader))))"

section \<open>What the specification says, in closed form\<close>

text \<open>
  The definitions of this section are not translations of the source: they write down the
  words of the specification (shapes, the sandwich product of matrices, means over
  batches, the schedule and the trace of an epoch), to be compared with the functions
  above.
\<close>

text \<open>An array of a given shape, and the sub-arrays along its first axis.\<close>

fun has_shape :: "nat list \<Rightarrow> nd \<Rightarrow> bool" where
  "has_shape [] (Sc r) = True"
| "has_shape (k # ks) (Ar xs) = (length xs = k \<and> (\<forall>x \<in> set xs. has_shape ks x))"
| "has_shape [] (Ar xs) = False"
| "has_shape (k # ks) (Sc r) = False"

fun items :: "nd \<Rightarrow> nd list" where
  "items (Ar xs) = xs"
| "items (Sc r) = []"

text \<open>
  The Jacobian of one item with respect to the flattened parameters, \<open>[C, D]\<close>: row \<open>a\<close> is
  the derivative of logit \<open>a\<close> of item \<open>n\<close>, leaf after leaf in the order of the list of
  leaves, every leaf flattened row-major.
\<close>

definition jacobian_item :: "nat \<Rightarrow> nd list \<Rightarrow> nat \<Rightarrow> mat" where
  "jacobian_item C leaves n =
     map (\<lambda>a. concat (map (\<lambda>l. flatten (items (items l ! n) ! a)) leaves)) [0..<C]"

text \<open>
  The transpose of an \<open>m \<times> n\<close> matrix, the product of an \<open>m \<times> k\<close> and a \<open>k \<times> n\<close> matrix,
  and the quadratic form \<open>v\<^sup>T A v\<close> of a \<open>D \<times> D\<close> matrix.
\<close>

definition mat_transpose :: "nat \<Rightarrow> nat \<Rightarrow> mat \<Rightarrow> mat" where
  "mat_transpose m n A = map (\<lambda>j. map (\<lambda>i. A ! i ! j) [0..<m]) [0..<n]"

definition matmul :: "nat \<Rightarrow> nat \<Rightarrow> nat \<Rightarrow> mat \<Rightarrow> mat \<Rightarrow> mat" where
  "matmul m k n A B = map (\<lambda>i. map (\<lambda>j. (\<Sum>l\<leftarrow>[0..<k]. A ! i ! l * B ! l ! j)) [0..<n]) [0..<m]"

definition quad_form :: "nat \<Rightarrow> mat \<Rightarrow> real list \<Rightarrow> real" where
  "quad_form D A v = (\<Sum>x\<leftarrow>[0..<D]. \<Sum>y\<leftarrow>[0..<D]. v ! x * A ! x ! y * v ! y)"

text \<open>
  The Hessian, with respect to the logits \<open>z\<close> of one item, of the softmax cross-entropy
  loss \<open>log (\<Sum>\<^sub>c exp z\<^sub>c) - z\<^sub>y\<close>, in closed form: \<open>diag p - p p\<^sup>T\<close> for \<open>p\<close> the softmax of \<open>z\<close>.
  It does not depend on the label \<open>y\<close>.
\<close>

definition softmax :: "real list \<Rightarrow> real list" where
  "softmax z = map (\<lambda>v. exp v / (\<Sum>w\<leftarrow>z. exp w)) z"

definition softmax_hessian :: "real list \<Rightarrow> mat" where
  "softmax_hessian z =
     map (\<lambda>a. map (\<lambda>b. (if a = b then softmax z ! a else 0) - softmax z ! a * softmax z ! b)
            [0..<length z]) [0..<length z]"

text \<open>A matrix of \<open>D\<^sub>1\<close> rows of length \<open>D\<^sub>2\<close>.\<close>

definition has_shape2 :: "nat \<Rightarrow> nat \<Rightarrow> mat \<Rightarrow> bool" where
  "has_shape2 D1 D2 A \<longleftrightarrow> length A = D1 \<and> (\<forall>r \<in> set A. length r = D2)"

text \<open>
  The samples aggregate as the specification describes it: position \<open>i\<close> is the mean, over
  the batches \<open>Gs\<close>, of the item at position \<open>i\<close> of each batch.
\<close>

definition positional_mean :: "nat \<Rightarrow> ten list \<Rightarrow> ten" where
  "positional_mean N Gs = map (\<lambda>i. mean_axis0 (map (\<lambda>G. G ! i) Gs)) [0..<N]"

text \<open>The key under which an event stores an array: global step and batch-count tag.\<close>

definition save_tag :: "event \<Rightarrow> (int \<times> int option) option" where
  "save_tag e =
     (case e of
        SaveSamples _ n m \<Rightarrow> Some (n, Some m)
      | SaveTotal _ n \<Rightarrow> Some (n, None)
      | Step _ \<Rightarrow> None)"

text \<open>
  The global step counters of \<open>k\<close> training batches from \<open>n\<close> on; the steps at which a GGN
  pass is due, the first \<open>n_ggn_iterations\<close> multiples of \<open>ggn_freq\<close> among them; the
  training states before each batch; and the trace in which exactly the due steps are
  preceded by a complete GGN pass on the state before the step.
\<close>

fun global_steps :: "int \<Rightarrow> nat \<Rightarrow> int list" where
  "global_steps n 0 = []"
| "global_steps n (Suc k) = n # global_steps (n + 1) k"

definition trigger_steps :: "int \<Rightarrow> int \<Rightarrow> int \<Rightarrow> nat \<Rightarrow> int list" where
  "trigger_steps n_ggn_iterations ggn_freq n_steps k =
     take (nat n_ggn_iterations) (filter (\<lambda>n. n mod ggn_freq = 0) (global_steps n_steps k))"

fun train_states :: "('s, 'x, 'g, 't) env \<Rightarrow> 's \<Rightarrow> ('x \<times> int list) list \<Rightarrow> 's list" where
  "train_states E s [] = []"
| "train_states E s (b # bs) =
     s # (case train_step E s b of Inl e \<Rightarrow> [] | Inr (s', _, _) \<Rightarrow> train_states E s' bs)"

definition epoch_trace ::
  "('s, 'x, 'g, 't) env \<Rightarrow> ('x \<times> int list) list \<Rightarrow> int list \<Rightarrow> int list \<Rightarrow> 's list \<Rightarrow> int list
     \<Rightarrow> event list" where
  "epoch_trace E ggn_batches ggn_batch_sizes triggers states steps =
     concat (map2 (\<lambda>s n.
        (if n \<in> set triggers
         then fst (ggn_pass (compute_ggn E s) ggn_batch_sizes n ggn_batches) else [])
        @ [Step n]) states steps)"

text \<open>The per-item losses and the correct counts of the steps of an epoch, in order.\<close>

fun train_outputs ::
  "('s, 'x, 'g, 't) env \<Rightarrow> 's \<Rightarrow> ('x \<times> int list) list \<Rightarrow> (real list \<times> int) list" where
  "train_outputs E s [] = []"
| "train_outputs E s (b # bs) =
     (case train_step E s b of
        Inl e \<Rightarrow> []
      | Inr (s', loss, n_correct) \<Rightarrow> (loss, n_correct) # train_outputs E s' bs)"

fun test_outputs ::
  "('s, 'x, 'g, 't) env \<Rightarrow> 's \<Rightarrow> ('x \<times> int list) list \<Rightarrow> (real list \<times> int) list" where
  "test_outputs E s [] = []"
| "test_outputs E s (b # bs) =
     (case test_step E s b of
        Inl e \<Rightarrow> []
      | Inr (loss, n_correct) \<Rightarrow> (loss, n_correct) # test_outputs E s bs)"

section \<open>A small instance\<close>

text \<open>
  A two-class linear model on scalar inputs, for evaluating the definitions: the state is
  the weight vector \<open>w\<close>, the logits of input \<open>v\<close> are \<open>w\<^sub>c * v\<close>, and the Jacobian tree is a
  single leaf of shape \<open>[N, C, C]\<close>. The loss, the gradient and the Hessian are simple
  stand-ins with the right shapes; the Hessian is that of the softmax cross-entropy at two
  equal logits.
\<close>

definition toy_env :: "(real list, real list, real list, nd) env" where
  "toy_env =
     \<lparr> apply_fn = (\<lambda>w x. map (\<lambda>v. map (\<lambda>wc. wc * v) w) x),
       xent = (\<lambda>logits y. map2 (\<lambda>z c. sum_list z - z ! nat c) logits y),
       grad_loss = (\<lambda>w x y. map (\<lambda>_. 0) w),
       apply_gradients = (\<lambda>w g. map2 (-) w g),
       jacrev_model = (\<lambda>w x.
          Ar (map (\<lambda>v. Ar (map (\<lambda>a. Ar (map (\<lambda>k. Sc (if a = k then v else 0))
                [0..<length w])) [0..<length w])) x)),
       tree_leaves = (\<lambda>t. [t]),
       hess_loss = (\<lambda>z c. [[1/4, -1/4], [-1/4, 1/4]]) \<rparr>"

text \<open>A loader of one-item batches with label \<open>0\<close>.\<close>

definition toy_loader :: "real list \<Rightarrow> real list DataLoader" where
  "toy_loader vs = \<lparr>batches = map (\<lambda>v. ([v], [0])) vs, dataset_len = length vs\<rparr>"

section \<open>Counting correct predictions\<close>

lemma sum_bool_eq_length_filter: "sum_bool bs = int (length (filter (\<lambda>b. b) bs))"
  unfolding sum_bool_def by (induction bs) auto

lemma sum_bool_map2:
  assumes "length ps = length ys"
  shows "sum_bool (map2 (=) ps ys) = int (card {i. i < length ys \<and> ps ! i = ys ! i})"
proof -
  have "length (filter (\<lambda>b. b) (map2 (=) ps ys))
          = card {i. i < length (map2 (=) ps ys) \<and> (map2 (=) ps ys) ! i}"
    by (rule length_filter_conv_card)
  also have "{i. i < length (map2 (=) ps ys) \<and> (map2 (=) ps ys) ! i}
          = {i. i < length ys \<and> ps ! i = ys ! i}"
    using assms by auto
  finally show ?thesis by (simp add: sum_bool_eq_length_filter)
qed

lemma n_correct_of_count:
  assumes "length logits = length y" and "\<forall>r \<in> set logits. r \<noteq> []"
  shows "n_correct_of logits y
           = Inr (int (card {i. i < length y \<and> int (argmax_row (logits ! i)) = y ! i}))"
proof -
  have a: "argmax_last logits = Inr (map (\<lambda>r. int (argmax_row r)) logits)"
    using assms(2) by (auto simp: argmax_last_def)
  have b: "broadcast0 (=) (map (\<lambda>r. int (argmax_row r)) logits) y
             = Inr (map2 (=) (map (\<lambda>r. int (argmax_row r)) logits) y)"
    using assms(1) by (simp add: broadcast0_def)
  have c: "{i. i < length y \<and> map (\<lambda>r. int (argmax_row r)) logits ! i = y ! i}
             = {i. i < length y \<and> int (argmax_row (logits ! i)) = y ! i}"
    using assms(1) by auto
  have d: "sum_bool (map2 (=) (map (\<lambda>r. int (argmax_row r)) logits) y)
             = int (card {i. i < length y \<and> int (argmax_row (logits ! i)) = y ! i})"
    using sum_bool_map2 [of "map (\<lambda>r. int (argmax_row r)) logits" y] assms(1)
    by (simp only: c length_map)
  show ?thesis
    by (simp only: n_correct_of_def a b d sum.case)
qed

text \<open>
  Claim C10. For a batch whose labels are as many as its logit rows, over a non-empty class
  axis, \<^verbatim>\<open>train_step\<close> and \<^verbatim>\<open>test_step\<close> both return as \<^verbatim>\<open>n_correct\<close> the integer
  number of positions \<open>i\<close> at which the argmax of row \<open>i\<close> of the logits equals label \<open>i\<close>:
  a non-negative integer, computed without any real-number arithmetic.
\<close>

theorem n_correct_exact_count:
  assumes "length (apply_fn E state x) = length y"
    and "\<forall>r \<in> set (apply_fn E state x). r \<noteq> []"
  shows "train_step E state (x, y)
           = Inr (apply_gradients E state (grad_loss E state x y),
                  xent E (apply_fn E state x) y,
                  int (card {i. i < length y \<and> int (argmax_row (apply_fn E state x ! i)) = y ! i}))
       \<and> test_step E state (x, y)
           = Inr (xent E (apply_fn E state x) y,
                  int (card {i. i < length y \<and> int (argmax_row (apply_fn E state x ! i)) = y ! i}))"
  using n_correct_of_count [OF assms]
  by (simp add: train_step_def test_step_def Let_def)

theorem n_correct_exact_count_witness:
  "length (apply_fn toy_env [1, 2] [1, -1]) = length [1, 1 :: int]
   \<and> [] \<notin> set (apply_fn toy_env [1, 2] [1, -1])
   \<and> train_step toy_env [1, 2] ([1, -1], [1, 1]) = Inr ([1, 2], [1, -1], 1)
   \<and> test_step toy_env [1, 2] ([1, -1], [1, 1]) = Inr ([1, -1], 1)
   \<and> int (card {i. i < length [1, 1 :: int]
                 \<and> int (argmax_row (apply_fn toy_env [1, 2] [1, -1] ! i)) = [1, 1] ! i}) = 1"
proof -
  have h1: "length (apply_fn toy_env [1, 2] [1, -1]) = length [1, 1 :: int]"
    by (simp add: toy_env_def)
  have h2: "\<forall>r \<in> set (apply_fn toy_env [1, 2] [1, -1]). r \<noteq> []"
    by (simp add: toy_env_def)
  have ev: "train_step toy_env [1, 2] ([1, -1], [1, 1]) = Inr ([1, 2], [1, -1], 1)"
    by (simp add: train_step_def toy_env_def n_correct_of_def argmax_last_def argmax_row_def
        broadcast0_def sum_bool_def)
  have ev': "test_step toy_env [1, 2] ([1, -1], [1, 1]) = Inr ([1, -1], 1)"
    by (simp add: test_step_def toy_env_def n_correct_of_def argmax_last_def argmax_row_def
        broadcast0_def sum_bool_def)
  have h3: "[] \<notin> set (apply_fn toy_env [1, 2] [1, -1])"
    by (simp add: toy_env_def)
  from n_correct_exact_count [OF h1 h2] ev show ?thesis
    using h1 h3 ev' by simp
qed

section \<open>The zero frequency\<close>

text \<open>
  Claim C9. \<^verbatim>\<open>train_epoch\<close> needs a non-zero \<^verbatim>\<open>ggn_freq\<close>: with \<^verbatim>\<open>ggn_freq = 0\<close>, a positive
  \<^verbatim>\<open>n_ggn_iterations\<close> and at least one training batch, the modulo of the trigger check
  raises on the first batch, before any event of the epoch (no save, no training step).
  With any non-zero \<^verbatim>\<open>ggn_freq\<close>, in particular every \<^verbatim>\<open>ggn_freq \<ge> 1\<close>, the trigger check
  never raises, whatever the counter of passes and the global step: it returns whether
  fewer than \<^verbatim>\<open>n_ggn_iterations\<close> passes are done and the step is a multiple of
  \<^verbatim>\<open>ggn_freq\<close>.
\<close>

theorem ggn_freq_zero_raises:
  "(batches train_dataloader \<noteq> [] \<and> 0 < n_ggn_iterations \<longrightarrow>
      train_epoch E state train_dataloader ggn_dataloader ggn_batch_sizes 0
        n_ggn_iterations n_steps = ([], Inl ZeroDivisionError))
   \<and> (ggn_freq \<noteq> 0 \<longrightarrow>
      ggn_trigger GGN_iter_counter n_ggn_iterations n ggn_freq
        = Inr (GGN_iter_counter < n_ggn_iterations \<and> n mod ggn_freq = 0))"
proof (intro conjI impI)
  assume a: "batches train_dataloader \<noteq> [] \<and> 0 < n_ggn_iterations"
  then obtain b bs where bs: "batches train_dataloader = b # bs"
    by (cases "batches train_dataloader") auto
  show "train_epoch E state train_dataloader ggn_dataloader ggn_batch_sizes 0
          n_ggn_iterations n_steps = ([], Inl ZeroDivisionError)"
    using a by (simp add: train_epoch_def bs ggn_trigger_def)
next
  assume "ggn_freq \<noteq> 0"
  then show "ggn_trigger GGN_iter_counter n_ggn_iterations n ggn_freq
        = Inr (GGN_iter_counter < n_ggn_iterations \<and> n mod ggn_freq = 0)"
    by (simp add: ggn_trigger_def)
qed

theorem ggn_freq_zero_raises_witness:
  "train_epoch toy_env [1, 2] \<lparr>batches = [([1], [0])], dataset_len = 1\<rparr>
         \<lparr>batches = [([1], [0])], dataset_len = 1\<rparr> [1] 0 1 0 = ([], Inl ZeroDivisionError)
   \<and> ggn_trigger 0 1 6 3 = Inr True
   \<and> ggn_trigger 0 1 7 3 = Inr False
   \<and> ggn_trigger 1 1 6 3 = Inr False"
proof -
  have a: "train_epoch toy_env [1, 2] \<lparr>batches = [([1], [0])], dataset_len = 1\<rparr>
         \<lparr>batches = [([1], [0])], dataset_len = 1\<rparr> [1] 0 1 0 = ([], Inl ZeroDivisionError)"
    using ggn_freq_zero_raises [THEN conjunct1,
        of "\<lparr>batches = [([1], [0])], dataset_len = 1\<rparr>" 1 toy_env "[1, 2]"
           "\<lparr>batches = [([1], [0])], dataset_len = 1\<rparr>" "[1]" 0]
    by simp
  have b: "ggn_trigger 0 1 6 3 = Inr True"
    using ggn_freq_zero_raises [THEN conjunct2, of 3 0 1 6] by simp
  have c: "ggn_trigger 0 1 7 3 = Inr False"
    using ggn_freq_zero_raises [THEN conjunct2, of 3 0 1 7] by simp
  have d: "ggn_trigger 1 1 6 3 = Inr False"
    using ggn_freq_zero_raises [THEN conjunct2, of 3 1 1 6] by simp
  show ?thesis
    by (intro conjI a b c d)
qed

section \<open>Persistence during a GGN pass\<close>

lemma save_tag_simps:
  "save_tag (SaveSamples S n m) = Some (n, Some m)"
  "save_tag (SaveTotal T n) = Some (n, None)"
  "save_tag (Step n) = None"
  by (simp_all add: save_tag_def)

lemma ggn_loop_tags:
  "ggn_loop cg sizes n k bs acc = (evs, Inr acc')
     \<Longrightarrow> map save_tag evs
           = map (\<lambda>m. Some (n, Some m))
               (filter (\<lambda>m. m \<in> set sizes) (map int [Suc k..<Suc k + length bs]))"
proof (induction bs arbitrary: k acc evs)
  case Nil
  then show ?case by simp
next
  case (Cons b bs)
  from Cons.prems obtain G where G: "cg b = Inr G"
    by (cases "cg b") auto
  from Cons.prems G obtain S where S: "samples_update (snd (snd acc)) G (int k + 1) = Inr S"
    by (cases "samples_update (snd (snd acc)) G (int k + 1)") auto
  obtain evs' r where rec:
    "ggn_loop cg sizes n (Suc k) bs
       (fst acc + length G, Some (total_update (fst (snd acc)) G (fst acc + length G)), Some S)
     = (evs', r)"
    by (cases "ggn_loop cg sizes n (Suc k) bs
       (fst acc + length G, Some (total_update (fst (snd acc)) G (fst acc + length G)), Some S)")
  from Cons.prems have r: "r = Inr acc'"
    and evs: "evs = (if int k + 1 \<in> set sizes then [SaveSamples S n (int k + 1)] else []) @ evs'"
    by (simp_all add: G S rec Let_def)
  have ih: "map save_tag evs'
      = map (\<lambda>m. Some (n, Some m))
          (filter (\<lambda>m. m \<in> set sizes) (map int [Suc (Suc k)..<Suc (Suc k) + length bs]))"
    using Cons.IH [OF rec [unfolded r]] .
  have upt: "[Suc k..<Suc k + length (b # bs)] = Suc k # [Suc (Suc k)..<Suc (Suc k) + length bs]"
    using upt_conv_Cons [of "Suc k" "Suc k + length (b # bs)"] by simp
  show ?case
    unfolding upt evs by (simp add: ih save_tag_simps add.commute del: upt_Suc)
qed

text \<open>
  Claim C5. A GGN pass that completes over \<open>K\<close> batches stores the samples aggregate once
  for every cumulative batch count \<open>m\<close> in \<open>1..K\<close> that is a member of
  \<^verbatim>\<open>ggn_batch_sizes\<close>, in increasing order of \<open>m\<close>, under the key (global step, \<open>m\<close>), and
  then the total aggregate once, under the global step with no batch count. The pass has
  no other event.
\<close>

theorem ggn_pass_persists:
  assumes "ggn_pass cg ggn_batch_sizes n_steps ggn_batches = (evs, Inr acc)"
  shows "map save_tag evs
           = map (\<lambda>m. Some (n_steps, Some m))
               (filter (\<lambda>m. m \<in> set ggn_batch_sizes) (map int [1..<Suc (length ggn_batches)]))
             @ [Some (n_steps, None)]
       \<and> last evs = SaveTotal (fst (snd acc)) n_steps"
proof -
  obtain evs' r where rec:
    "ggn_loop cg ggn_batch_sizes n_steps 0 ggn_batches (0, None, None) = (evs', r)"
    by (cases "ggn_loop cg ggn_batch_sizes n_steps 0 ggn_batches (0, None, None)")
  from assms have r: "r = Inr acc" and evs: "evs = evs' @ [SaveTotal (fst (snd acc)) n_steps]"
    by (auto simp: ggn_pass_def rec split: sum.splits)
  from ggn_loop_tags [OF rec [unfolded r]] show ?thesis
    by (simp add: evs save_tag_simps del: upt_Suc)
qed

theorem ggn_pass_persists_witness:
  "ggn_pass (\<lambda>b::real. Inr [[[b]]]) [1, 3] 7 [1, 2, 3, 4, 5]
     = ([SaveSamples [[[1]]] 7 1, SaveSamples [[[2]]] 7 3, SaveTotal (Some [[3]]) 7],
        Inr (5, Some [[3]], Some [[[3]]]))
   \<and> map save_tag [SaveSamples [[[1]]] 7 1, SaveSamples [[[2]]] 7 3, SaveTotal (Some [[3]]) 7]
     = [Some (7, Some 1), Some (7, Some 3), Some (7, None)]
   \<and> filter (\<lambda>m. m \<in> set [1, 3]) (map int [1..<Suc (length [1, 2, 3, 4, 5 :: real])]) = [1, 3]"
proof -
  have e: "ggn_pass (\<lambda>b::real. Inr [[[b]]]) [1, 3] 7 [1, 2, 3, 4, 5]
     = ([SaveSamples [[[1]]] 7 1, SaveSamples [[[2]]] 7 3, SaveTotal (Some [[3]]) 7],
        Inr (5, Some [[3]], Some [[[3]]]))"
    by (simp add: ggn_pass_def samples_update_def total_update_def broadcast0_def
        madd_def msub_def mdiv_def mean_axis0_def sum_axis0_def Let_def)
  have f: "filter (\<lambda>m. m \<in> set [1, 3]) (map int [1..<Suc (length [1, 2, 3, 4, 5 :: real])]) = [1, 3]"
    by (simp add: upt_rec)
  from ggn_pass_persists [OF e] show ?thesis
    using e f by (simp add: save_tag_simps)
qed

section \<open>The schedule of GGN passes\<close>

lemma global_steps_greater: "m \<in> set (global_steps n k) \<Longrightarrow> n \<le> m"
proof (induction k arbitrary: n)
  case 0
  then show ?case by simp
next
  case (Suc k)
  from Suc.prems have "m = n \<or> m \<in> set (global_steps (n + 1) k)" by simp
  then show ?case
  proof
    assume "m = n" then show ?thesis by simp
  next
    assume "m \<in> set (global_steps (n + 1) k)"
    then have "n + 1 \<le> m" by (rule Suc.IH)
    then show ?thesis by simp
  qed
qed

lemma length_global_steps: "length (global_steps n k) = k"
  by (induction k arbitrary: n) auto

lemma epoch_trace_cong:
  assumes "\<And>m. m \<in> set steps \<Longrightarrow> (m \<in> set T) = (m \<in> set T')"
  shows "epoch_trace E gbs sizes T states steps = epoch_trace E gbs sizes T' states steps"
proof -
  have "map2 (\<lambda>s n. (if n \<in> set T then fst (ggn_pass (compute_ggn E s) sizes n gbs) else [])
                      @ [Step n]) states steps
      = map2 (\<lambda>s n. (if n \<in> set T' then fst (ggn_pass (compute_ggn E s) sizes n gbs) else [])
                      @ [Step n]) states steps"
  proof (rule map_cong [OF refl])
    fix p assume p: "p \<in> set (zip states steps)"
    obtain st m where pm: "p = (st, m)" by (cases p)
    from p have "m \<in> set steps" unfolding pm by (rule set_zip_rightD)
    then have "(m \<in> set T) = (m \<in> set T')" by (rule assms)
    then show "(case p of (s, n) \<Rightarrow>
                  (if n \<in> set T then fst (ggn_pass (compute_ggn E s) sizes n gbs) else [])
                  @ [Step n])
             = (case p of (s, n) \<Rightarrow>
                  (if n \<in> set T' then fst (ggn_pass (compute_ggn E s) sizes n gbs) else [])
                  @ [Step n])"
      by (simp add: pm)
  qed
  then show ?thesis unfolding epoch_trace_def by (rule arg_cong [where f = concat])
qed

lemma train_loop_trace:
  assumes "train_loop E gbs sizes f n_iter bs (s, L, nc, c, n) = (evs, Inr (s', L', nc', c', n'))"
  shows "evs = epoch_trace E gbs sizes
                 (take (nat (n_iter - c)) (filter (\<lambda>m. m mod f = 0) (global_steps n (length bs))))
                 (train_states E s bs) (global_steps n (length bs))
       \<and> c' = c + int (length (take (nat (n_iter - c))
                  (filter (\<lambda>m. m mod f = 0) (global_steps n (length bs)))))
       \<and> n' = n + int (length bs)"
  using assms
proof (induction bs arbitrary: s L nc c n evs)
  case Nil
  then show ?case by (simp add: epoch_trace_def)
next
  case (Cons b rest)
  let ?G' = "global_steps (n + 1) (length rest)"
  let ?P = "\<lambda>m. m mod f = 0"
  from Cons.prems obtain trig where trig: "ggn_trigger c n_iter n f = Inr trig"
    by (cases "ggn_trigger c n_iter n f") auto
  then have trig_eq: "trig = (c < n_iter \<and> n mod f = 0)"
    by (auto simp: ggn_trigger_def split: if_splits)
  define c1 where "c1 = (if trig then c + 1 else c)"
  define evs1 where "evs1 = (if trig then fst (ggn_pass (compute_ggn E s) sizes n gbs) else [])"
  have pass: "(if trig
                  then (case ggn_pass (compute_ggn E s) sizes n gbs of
                          (evs, Inl e) \<Rightarrow> (evs, Inl e)
                        | (evs, Inr _) \<Rightarrow> (evs, Inr (c + 1)))
                  else ([], Inr c)) = (evs1, Inr c1)"
    using Cons.prems trig
    by (auto simp: c1_def evs1_def Let_def split: if_splits prod.splits sum.splits)
  from Cons.prems trig pass obtain s1 loss k where
    step: "train_step E s b = Inr (s1, loss, k)"
    by (cases "train_step E s b") (auto simp: Let_def)
  obtain evs2 r2 where rec:
    "train_loop E gbs sizes f n_iter rest (s1, L @ [loss], nc + k, c1, n + 1) = (evs2, r2)"
    by (cases "train_loop E gbs sizes f n_iter rest (s1, L @ [loss], nc + k, c1, n + 1)")
  from Cons.prems have r2: "r2 = Inr (s', L', nc', c', n')" and evs: "evs = evs1 @ [Step n] @ evs2"
    by (simp_all add: trig pass step rec Let_def)
  let ?T' = "take (nat (n_iter - c1)) (filter ?P ?G')"
  let ?T = "take (nat (n_iter - c)) (filter ?P (global_steps n (length (b # rest))))"
  from Cons.IH [OF rec [unfolded r2]]
  have ih1: "evs2 = epoch_trace E gbs sizes ?T' (train_states E s1 rest) ?G'"
    and ih2: "c' = c1 + int (length ?T')" and ih3: "n' = n + 1 + int (length rest)"
    by simp_all
  have T: "?T = (if trig then [n] else []) @ ?T'"
  proof (cases trig)
    case True
    then have "nat (n_iter - c) = Suc (nat (n_iter - (c + 1)))" and "n mod f = 0"
      using trig_eq by auto
    then show ?thesis using True by (simp add: c1_def)
  next
    case False
    show ?thesis
    proof (cases "c < n_iter")
      case True
      then have "n mod f \<noteq> 0" using False trig_eq by simp
      then show ?thesis using False by (simp add: c1_def)
    next
      case False
      then have "nat (n_iter - c) = 0" by simp
      then show ?thesis using \<open>\<not> trig\<close> by (simp add: c1_def)
    qed
  qed
  have notin: "n \<notin> set ?T'"
  proof
    assume "n \<in> set ?T'"
    then have "n \<in> set ?G'" by (auto dest: in_set_takeD)
    then have "n + 1 \<le> n" by (rule global_steps_greater)
    then show False by simp
  qed
  have mem: "(m \<in> set ?T) = (m \<in> set ?T')" if "m \<in> set ?G'" for m
  proof -
    from that have "n + 1 \<le> m" by (rule global_steps_greater)
    then have "m \<noteq> n" by simp
    then show ?thesis unfolding T by auto
  qed
  have n_in: "(n \<in> set ?T) = trig"
    unfolding T using notin by auto
  have tail: "epoch_trace E gbs sizes ?T (train_states E s1 rest) ?G'
            = epoch_trace E gbs sizes ?T' (train_states E s1 rest) ?G'"
    by (rule epoch_trace_cong) (rule mem)
  have "epoch_trace E gbs sizes ?T (train_states E s (b # rest)) (global_steps n (length (b # rest)))
      = (evs1 @ [Step n]) @ epoch_trace E gbs sizes ?T (train_states E s1 rest) ?G'"
    using n_in by (simp add: epoch_trace_def step evs1_def)
  then have e: "evs = epoch_trace E gbs sizes ?T (train_states E s (b # rest))
                   (global_steps n (length (b # rest)))"
    using tail ih1 evs by simp
  have c: "c' = c + int (length ?T)"
    unfolding T using ih2 by (simp add: c1_def)
  show ?case using e c ih3 by simp
qed

lemma take_filter_member:
  assumes "distinct xs" and "i < length xs"
  shows "(xs ! i \<in> set (take k (filter P xs)))
       = (P (xs ! i) \<and> length (filter (\<lambda>m. m \<in> set (take k (filter P xs))) (take i xs)) < k)"
  using assms
proof (induction xs arbitrary: k i)
  case Nil
  then show ?case by simp
next
  case (Cons x xs)
  let ?T = "take k (filter P (x # xs))"
  have dx: "x \<notin> set xs" and ds: "distinct xs" using Cons.prems(1) by simp_all
  have sub: "set (take k' (filter P xs)) \<subseteq> set xs" for k'
    by (auto dest: in_set_takeD)
  show ?case
  proof (cases i)
    case 0
    show ?thesis
    proof (cases "P x")
      case True
      then show ?thesis using 0 by (cases k) simp_all
    next
      case False
      then have "x \<notin> set ?T" using sub [of k] dx by auto
      then show ?thesis using 0 False by simp
    qed
  next
    case (Suc j)
    then have j: "j < length xs" using Cons.prems(2) by simp
    have neq: "m \<noteq> x" if "m \<in> set xs" for m using that dx by auto
    have xj: "xs ! j \<noteq> x" using j by (intro neq) simp
    show ?thesis
    proof (cases "P x")
      case False
      then have T: "?T = take k (filter P xs)" by simp
      have "x \<notin> set (take k (filter P xs))" using sub [of k] dx by auto
      then have "filter (\<lambda>m. m \<in> set ?T) (take i (x # xs))
               = filter (\<lambda>m. m \<in> set (take k (filter P xs))) (take j xs)"
        unfolding T by (simp add: Suc)
      then show ?thesis
        unfolding T using Cons.IH [OF ds j, of k] by (simp add: Suc)
    next
      case True
      show ?thesis
      proof (cases k)
        case 0
        then show ?thesis by simp
      next
        case (Suc k')
        define T where "T = take k (filter P (x # xs))"
        define T' where "T' = take k' (filter P xs)"
        have T: "T = x # T'" using True Suc by (simp add: T_def T'_def)
        have mem: "(m \<in> set T) = (m \<in> set T')" if "m \<in> set xs" for m
          unfolding T using neq [OF that] by simp
        have "filter (\<lambda>m. m \<in> set T) (take j xs) = filter (\<lambda>m. m \<in> set T') (take j xs)"
        proof (rule filter_cong [OF refl])
          fix m assume "m \<in> set (take j xs)"
          then have "m \<in> set xs" by (rule in_set_takeD)
          then show "(m \<in> set T) = (m \<in> set T')" by (rule mem)
        qed
        moreover have "x \<in> set T" by (simp add: T)
        ultimately have len: "length (filter (\<lambda>m. m \<in> set T) (take i (x # xs)))
                 = Suc (length (filter (\<lambda>m. m \<in> set T') (take j xs)))"
          using \<open>i = Suc j\<close> by simp
        have el: "((x # xs) ! i \<in> set T) = (xs ! j \<in> set T')"
          using j \<open>i = Suc j\<close> mem [of "xs ! j"] by simp
        have "(xs ! j \<in> set T')
            = (P (xs ! j) \<and> length (filter (\<lambda>m. m \<in> set T') (take j xs)) < k')"
          unfolding T'_def by (rule Cons.IH [OF ds j])
        then have "((x # xs) ! i \<in> set T)
            = (P ((x # xs) ! i) \<and> length (filter (\<lambda>m. m \<in> set T) (take i (x # xs))) < k)"
          using el len Suc \<open>i = Suc j\<close> by simp
        then show ?thesis unfolding T_def .
      qed
    qed
  qed
qed

lemma distinct_global_steps: "distinct (global_steps n k)"
proof (induction k arbitrary: n)
  case 0
  show ?case by simp
next
  case (Suc k)
  have "n \<notin> set (global_steps (n + 1) k)"
  proof
    assume "n \<in> set (global_steps (n + 1) k)"
    then have "n + 1 \<le> n" by (rule global_steps_greater)
    then show False by simp
  qed
  then show ?case using Suc.IH [of "n + 1"] by simp
qed

lemma trigger_steps_member:
  assumes "i < k"
  shows "(global_steps n k ! i \<in> set (trigger_steps n_iter f n k))
       = (int (length (filter (\<lambda>m. m \<in> set (trigger_steps n_iter f n k))
                        (take i (global_steps n k)))) < n_iter
          \<and> global_steps n k ! i mod f = 0)"
proof -
  have i: "i < length (global_steps n k)" using assms by (simp add: length_global_steps)
  show ?thesis
    unfolding trigger_steps_def
    using take_filter_member [OF distinct_global_steps i, of "nat n_iter" "\<lambda>m. m mod f = 0"]
    by (auto simp: zless_nat_eq_int_zless)
qed

text \<open>
  Claim C4. In an epoch that returns, a GGN pass runs at exactly the global steps that are
  multiples of \<^verbatim>\<open>ggn_freq\<close> while fewer than \<^verbatim>\<open>n_ggn_iterations\<close> passes have completed,
  that is at the first \<^verbatim>\<open>n_ggn_iterations\<close> multiples of \<^verbatim>\<open>ggn_freq\<close> among the steps of
  the epoch; the whole pass, computed on the state before the step, precedes the training
  step of its batch in the trace; and the last component returned is \<^verbatim>\<open>n_ggn_iterations\<close>
  minus the number of passes. The last part of the statement reads the closed form back:
  the step of batch \<open>i\<close> has a pass if and only if the number of earlier steps of the epoch
  with a pass is below \<^verbatim>\<open>n_ggn_iterations\<close> and the step is a multiple of \<^verbatim>\<open>ggn_freq\<close>.
\<close>

theorem ggn_trigger_schedule:
  assumes "train_epoch E state train_dataloader ggn_dataloader ggn_batch_sizes ggn_freq
             n_ggn_iterations n_steps = (evs, Inr (state', loss, accuracy, n_steps', remaining))"
  shows "evs = epoch_trace E (batches ggn_dataloader) ggn_batch_sizes
                 (trigger_steps n_ggn_iterations ggn_freq n_steps
                    (length (batches train_dataloader)))
                 (train_states E state (batches train_dataloader))
                 (global_steps n_steps (length (batches train_dataloader)))
       \<and> remaining = n_ggn_iterations
           - int (length (trigger_steps n_ggn_iterations ggn_freq n_steps
                            (length (batches train_dataloader))))
       \<and> n_steps' = n_steps + int (length (batches train_dataloader))
       \<and> (\<forall>i < length (batches train_dataloader).
            (global_steps n_steps (length (batches train_dataloader)) ! i
               \<in> set (trigger_steps n_ggn_iterations ggn_freq n_steps
                        (length (batches train_dataloader))))
            = (int (length (filter
                      (\<lambda>m. m \<in> set (trigger_steps n_ggn_iterations ggn_freq n_steps
                                        (length (batches train_dataloader))))
                      (take i (global_steps n_steps (length (batches train_dataloader))))))
                 < n_ggn_iterations
               \<and> global_steps n_steps (length (batches train_dataloader)) ! i mod ggn_freq = 0))"
proof -
  obtain evs1 r where loop:
    "train_loop E (batches ggn_dataloader) ggn_batch_sizes ggn_freq n_ggn_iterations
       (batches train_dataloader) (state, [], 0, 0, n_steps) = (evs1, r)"
    by (cases "train_loop E (batches ggn_dataloader) ggn_batch_sizes ggn_freq n_ggn_iterations
       (batches train_dataloader) (state, [], 0, 0, n_steps)")
  from assms obtain L nc c where r: "r = Inr (state', L, nc, c, n_steps')"
    and evs: "evs = evs1" and rem: "remaining = n_ggn_iterations - c"
    by (auto simp: train_epoch_def loop split: sum.splits)
  from train_loop_trace [OF loop [unfolded r]]
  have a: "evs = epoch_trace E (batches ggn_dataloader) ggn_batch_sizes
                 (trigger_steps n_ggn_iterations ggn_freq n_steps
                    (length (batches train_dataloader)))
                 (train_states E state (batches train_dataloader))
                 (global_steps n_steps (length (batches train_dataloader)))"
    and b: "remaining = n_ggn_iterations
           - int (length (trigger_steps n_ggn_iterations ggn_freq n_steps
                            (length (batches train_dataloader))))"
    and c: "n_steps' = n_steps + int (length (batches train_dataloader))"
    by (simp_all add: evs rem trigger_steps_def)
  have d: "\<forall>i < length (batches train_dataloader).
            (global_steps n_steps (length (batches train_dataloader)) ! i
               \<in> set (trigger_steps n_ggn_iterations ggn_freq n_steps
                        (length (batches train_dataloader))))
            = (int (length (filter
                      (\<lambda>m. m \<in> set (trigger_steps n_ggn_iterations ggn_freq n_steps
                                        (length (batches train_dataloader))))
                      (take i (global_steps n_steps (length (batches train_dataloader))))))
                 < n_ggn_iterations
               \<and> global_steps n_steps (length (batches train_dataloader)) ! i mod ggn_freq = 0)"
    by (intro allI impI) (rule trigger_steps_member)
  show ?thesis
    by (intro conjI a b c d)
qed

theorem ggn_trigger_schedule_witness:
  "train_epoch toy_env [1, 1] (toy_loader [1, 2, 3, 4, 5, 6, 7]) (toy_loader [2]) [1] 3 2 0
     = ([SaveSamples [[[1, - 1], [- 1, 1]]] 0 1, SaveTotal (Some [[1, - 1], [- 1, 1]]) 0,
         Step 0, Step 1, Step 2,
         SaveSamples [[[1, - 1], [- 1, 1]]] 3 1, SaveTotal (Some [[1, - 1], [- 1, 1]]) 3,
         Step 3, Step 4, Step 5, Step 6],
        Inr ([1, 1], 4, 1, 7, 0))
   \<and> trigger_steps 2 3 0 (length (batches (toy_loader [1, 2, 3, 4, 5, 6, 7]))) = [0, 3]
   \<and> epoch_trace toy_env (batches (toy_loader [2])) [1] [0, 3]
        (train_states toy_env [1, 1] (batches (toy_loader [1, 2, 3, 4, 5, 6, 7])))
        (global_steps 0 (length (batches (toy_loader [1, 2, 3, 4, 5, 6, 7]))))
     = [SaveSamples [[[1, - 1], [- 1, 1]]] 0 1, SaveTotal (Some [[1, - 1], [- 1, 1]]) 0,
         Step 0, Step 1, Step 2,
         SaveSamples [[[1, - 1], [- 1, 1]]] 3 1, SaveTotal (Some [[1, - 1], [- 1, 1]]) 3,
         Step 3, Step 4, Step 5, Step 6]"
proof -
  have e: "train_epoch toy_env [1, 1] (toy_loader [1, 2, 3, 4, 5, 6, 7]) (toy_loader [2]) [1] 3 2 0
     = ([SaveSamples [[[1, - 1], [- 1, 1]]] 0 1, SaveTotal (Some [[1, - 1], [- 1, 1]]) 0,
         Step 0, Step 1, Step 2,
         SaveSamples [[[1, - 1], [- 1, 1]]] 3 1, SaveTotal (Some [[1, - 1], [- 1, 1]]) 3,
         Step 3, Step 4, Step 5, Step 6],
        Inr ([1, 1], 4, 1, 7, 0))"
    by code_simp
  have t: "trigger_steps 2 3 0 (length (batches (toy_loader [1, 2, 3, 4, 5, 6, 7]))) = [0, 3]"
    by code_simp
  have c: "[SaveSamples [[[1, - 1], [- 1, 1]]] 0 1, SaveTotal (Some [[1, - 1], [- 1, 1]]) 0,
         Step 0, Step 1, Step 2,
         SaveSamples [[[1, - 1], [- 1, 1]]] 3 1, SaveTotal (Some [[1, - 1], [- 1, 1]]) 3,
         Step 3, Step 4, Step 5, Step 6]
      = epoch_trace toy_env (batches (toy_loader [2])) [1]
          (trigger_steps 2 3 0 (length (batches (toy_loader [1, 2, 3, 4, 5, 6, 7]))))
          (train_states toy_env [1, 1] (batches (toy_loader [1, 2, 3, 4, 5, 6, 7])))
          (global_steps 0 (length (batches (toy_loader [1, 2, 3, 4, 5, 6, 7]))))"
    by (rule ggn_trigger_schedule [OF e, THEN conjunct1])
  show ?thesis
    by (intro conjI e t c [unfolded t, symmetric])
qed

section \<open>Epoch loss and accuracy\<close>

lemma train_loop_outputs:
  assumes "train_loop E gbs sizes f n_iter bs (s, L, nc, c, n) = (evs, Inr (s', L', nc', c', n'))"
  shows "L' = L @ map fst (train_outputs E s bs)
       \<and> nc' = nc + sum_list (map snd (train_outputs E s bs))
       \<and> length (train_outputs E s bs) = length bs"
  using assms
proof (induction bs arbitrary: s L nc c n evs)
  case Nil
  then show ?case by simp
next
  case (Cons b rest)
  from Cons.prems obtain trig where trig: "ggn_trigger c n_iter n f = Inr trig"
    by (cases "ggn_trigger c n_iter n f") auto
  obtain evs1 r1 where pass: "(if trig
                  then (case ggn_pass (compute_ggn E s) sizes n gbs of
                          (evs, Inl e) \<Rightarrow> (evs, Inl e)
                        | (evs, Inr _) \<Rightarrow> (evs, Inr (c + 1)))
                  else ([], Inr c)) = (evs1, r1)"
    by (cases "(if trig
                  then (case ggn_pass (compute_ggn E s) sizes n gbs of
                          (evs, Inl e) \<Rightarrow> (evs, Inl e)
                        | (evs, Inr _) \<Rightarrow> (evs, Inr (c + 1)))
                  else ([], Inr c))")
  from Cons.prems trig pass obtain c1 where r1: "r1 = Inr c1"
    by (cases r1) (auto simp: Let_def)
  from Cons.prems trig pass r1 obtain s1 loss k where
    step: "train_step E s b = Inr (s1, loss, k)"
    by (cases "train_step E s b") (auto simp: Let_def)
  obtain evs2 r2 where rec:
    "train_loop E gbs sizes f n_iter rest (s1, L @ [loss], nc + k, c1, n + 1) = (evs2, r2)"
    by (cases "train_loop E gbs sizes f n_iter rest (s1, L @ [loss], nc + k, c1, n + 1)")
  from Cons.prems have r2: "r2 = Inr (s', L', nc', c', n')"
    by (simp add: trig pass r1 step rec Let_def)
  from Cons.IH [OF rec [unfolded r2]] show ?case
    by (simp add: step)
qed

lemma test_loop_outputs:
  assumes "test_loop E s bs (L, nc) = Inr (L', nc')"
  shows "L' = L @ map fst (test_outputs E s bs)
       \<and> nc' = nc + sum_list (map snd (test_outputs E s bs))
       \<and> length (test_outputs E s bs) = length bs"
  using assms
proof (induction bs arbitrary: L nc)
  case Nil
  then show ?case by simp
next
  case (Cons b rest)
  from Cons.prems obtain loss k where step: "test_step E s b = Inr (loss, k)"
    by (cases "test_step E s b") auto
  from Cons.prems have "test_loop E s rest (L @ [loss], nc + k) = Inr (L', nc')"
    by (simp add: step)
  from Cons.IH [OF this] show ?case by (simp add: step)
qed

text \<open>
  Claim C6. A training epoch and a test epoch that return, over at least one item and a
  non-empty dataset, have processed every batch; their loss is the sum of all per-item
  losses of the epoch divided by the number of items, whatever the batch sizes, and their
  accuracy is the sum of the correct counts divided by the dataset size.
\<close>

theorem epoch_loss_accuracy:
  "(train_epoch E state train_dataloader ggn_dataloader ggn_batch_sizes ggn_freq
      n_ggn_iterations n_steps = (evs, Inr (state', loss, accuracy, n_steps', remaining))
    \<and> concat (map fst (train_outputs E state (batches train_dataloader))) \<noteq> []
    \<and> 0 < dataset_len train_dataloader
    \<longrightarrow> length (train_outputs E state (batches train_dataloader))
          = length (batches train_dataloader)
      \<and> loss = sum_list (concat (map fst (train_outputs E state (batches train_dataloader))))
               / real (length (concat (map fst (train_outputs E state (batches train_dataloader)))))
      \<and> accuracy = real_of_int (sum_list (map snd (train_outputs E state (batches train_dataloader))))
               / real (dataset_len train_dataloader))
   \<and> (test_epoch E state test_dataloader = Inr (test_loss, test_accuracy)
    \<and> concat (map fst (test_outputs E state (batches test_dataloader))) \<noteq> []
    \<and> 0 < dataset_len test_dataloader
    \<longrightarrow> length (test_outputs E state (batches test_dataloader))
          = length (batches test_dataloader)
      \<and> test_loss = sum_list (concat (map fst (test_outputs E state (batches test_dataloader))))
               / real (length (concat (map fst (test_outputs E state (batches test_dataloader)))))
      \<and> test_accuracy
          = real_of_int (sum_list (map snd (test_outputs E state (batches test_dataloader))))
               / real (dataset_len test_dataloader))"
proof (intro conjI impI)
  assume a: "train_epoch E state train_dataloader ggn_dataloader ggn_batch_sizes ggn_freq
      n_ggn_iterations n_steps = (evs, Inr (state', loss, accuracy, n_steps', remaining))
    \<and> concat (map fst (train_outputs E state (batches train_dataloader))) \<noteq> []
    \<and> 0 < dataset_len train_dataloader"
  obtain evs1 r where loop:
    "train_loop E (batches ggn_dataloader) ggn_batch_sizes ggn_freq n_ggn_iterations
       (batches train_dataloader) (state, [], 0, 0, n_steps) = (evs1, r)"
    by (cases "train_loop E (batches ggn_dataloader) ggn_batch_sizes ggn_freq n_ggn_iterations
       (batches train_dataloader) (state, [], 0, 0, n_steps)")
  from a obtain L nc c where r: "r = Inr (state', L, nc, c, n_steps')"
    and m: "mean_concat L = Inr loss"
    and acc: "accuracy = real_of_int nc / real (dataset_len train_dataloader)"
    by (auto simp: train_epoch_def loop split: sum.splits)
  from train_loop_outputs [OF loop [unfolded r]]
  have L: "L = map fst (train_outputs E state (batches train_dataloader))"
    and nc: "nc = sum_list (map snd (train_outputs E state (batches train_dataloader)))"
    and len: "length (train_outputs E state (batches train_dataloader))
                = length (batches train_dataloader)"
    by simp_all
  show "length (train_outputs E state (batches train_dataloader))
          = length (batches train_dataloader)" by (rule len)
  show "loss = sum_list (concat (map fst (train_outputs E state (batches train_dataloader))))
               / real (length (concat (map fst (train_outputs E state (batches train_dataloader)))))"
    using m unfolding L by (simp add: mean_concat_def split: if_splits)
  show "accuracy = real_of_int (sum_list (map snd (train_outputs E state (batches train_dataloader))))
               / real (dataset_len train_dataloader)"
    using acc nc by simp
next
  assume a: "test_epoch E state test_dataloader = Inr (test_loss, test_accuracy)
    \<and> concat (map fst (test_outputs E state (batches test_dataloader))) \<noteq> []
    \<and> 0 < dataset_len test_dataloader"
  then obtain L nc where loop: "test_loop E state (batches test_dataloader) ([], 0) = Inr (L, nc)"
    and m: "mean_concat L = Inr test_loss"
    and acc: "test_accuracy = real_of_int nc / real (dataset_len test_dataloader)"
    by (auto simp: test_epoch_def split: sum.splits)
  from test_loop_outputs [OF loop]
  have L: "L = map fst (test_outputs E state (batches test_dataloader))"
    and nc: "nc = sum_list (map snd (test_outputs E state (batches test_dataloader)))"
    and len: "length (test_outputs E state (batches test_dataloader))
                = length (batches test_dataloader)"
    by simp_all
  show "length (test_outputs E state (batches test_dataloader))
          = length (batches test_dataloader)" by (rule len)
  show "test_loss = sum_list (concat (map fst (test_outputs E state (batches test_dataloader))))
               / real (length (concat (map fst (test_outputs E state (batches test_dataloader)))))"
    using m unfolding L by (simp add: mean_concat_def split: if_splits)
  show "test_accuracy
          = real_of_int (sum_list (map snd (test_outputs E state (batches test_dataloader))))
               / real (dataset_len test_dataloader)"
    using acc nc by simp
qed

theorem epoch_loss_accuracy_witness:
  "train_epoch toy_env [1, 1] \<lparr>batches = [([1, 1], [0, 0]), ([4], [1])], dataset_len = 3\<rparr>
       (toy_loader [2]) [1] 3 0 0
     = ([Step 0, Step 1], Inr ([1, 1], 2, 2 / 3, 2, 0))
   \<and> test_epoch toy_env [1, 1] \<lparr>batches = [([1, 1], [0, 0]), ([4], [1])], dataset_len = 3\<rparr>
     = Inr (2, 2 / 3)
   \<and> train_outputs toy_env [1, 1] [([1, 1], [0, 0]), ([4], [1])] = [([1, 1], 2), ([4], 0)]
   \<and> test_outputs toy_env [1, 1] [([1, 1], [0, 0]), ([4], [1])] = [([1, 1], 2), ([4], 0)]
   \<and> (2 :: real) = sum_list (concat (map fst [([1, 1], 2 :: int), ([4], 0)]))
                     / real (length (concat (map fst [([1, 1 :: real], 2 :: int), ([4], 0)])))
   \<and> (2 :: real) \<noteq> ((1 + 1) / 2 + 4 / 1) / 2"
proof -
  have e: "train_epoch toy_env [1, 1] \<lparr>batches = [([1, 1], [0, 0]), ([4], [1])], dataset_len = 3\<rparr>
       (toy_loader [2]) [1] 3 0 0
     = ([Step 0, Step 1], Inr ([1, 1], 2, 2 / 3, 2, 0))"
    by code_simp
  have t: "test_epoch toy_env [1, 1] \<lparr>batches = [([1, 1], [0, 0]), ([4], [1])], dataset_len = 3\<rparr>
     = Inr (2, 2 / 3)"
    by code_simp
  have o: "train_outputs toy_env [1, 1] [([1, 1], [0, 0]), ([4], [1])] = [([1, 1], 2), ([4], 0)]"
    by code_simp
  have o': "test_outputs toy_env [1, 1] [([1, 1], [0, 0]), ([4], [1])] = [([1, 1], 2), ([4], 0)]"
    by code_simp
  from epoch_loss_accuracy [where E = toy_env and state = "[1, 1]"
      and train_dataloader = "\<lparr>batches = [([1, 1], [0, 0]), ([4], [1])], dataset_len = 3\<rparr>"
      and ggn_dataloader = "toy_loader [2]" and ggn_batch_sizes = "[1]" and ggn_freq = 3
      and n_ggn_iterations = 0 and n_steps = 0 and evs = "[Step 0, Step 1]"
      and state' = "[1, 1]" and loss = 2 and accuracy = "2 / 3" and n_steps' = 2
      and remaining = 0
      and test_dataloader = "\<lparr>batches = [([1, 1], [0, 0]), ([4], [1])], dataset_len = 3\<rparr>"
      and test_loss = 2 and test_accuracy = "2 / 3"]
  show ?thesis
    using e t o o' by simp
qed

section \<open>Matrices entry by entry\<close>

lemma has_shape2_row: "has_shape2 D1 D2 A \<Longrightarrow> r < D1 \<Longrightarrow> length (A ! r) = D2"
  by (simp add: has_shape2_def)

lemma mat_eqI:
  assumes "has_shape2 D1 D2 A" and "has_shape2 D1 D2 B"
    and "\<And>r c. r < D1 \<Longrightarrow> c < D2 \<Longrightarrow> A ! r ! c = B ! r ! c"
  shows "A = B"
proof (rule nth_equalityI)
  show "length A = length B" using assms(1,2) by (simp add: has_shape2_def)
next
  fix r assume "r < length A"
  then have r: "r < D1" using assms(1) by (simp add: has_shape2_def)
  show "A ! r = B ! r"
  proof (rule nth_equalityI)
    show "length (A ! r) = length (B ! r)"
      using has_shape2_row [OF assms(1) r] has_shape2_row [OF assms(2) r] by simp
  next
    fix c assume "c < length (A ! r)"
    then have "c < D2" using has_shape2_row [OF assms(1) r] by simp
    then show "A ! r ! c = B ! r ! c" using r by (rule assms(3) [rotated])
  qed
qed

lemma map2_shape:
  assumes "has_shape2 D1 D2 A" and "has_shape2 D1 D2 B"
  shows "has_shape2 D1 D2 (map2 (map2 f) A B)"
proof -
  have "length (map2 f a b) = D2" if "(a, b) \<in> set (zip A B)" for a b
  proof -
    from that have "a \<in> set A" and "b \<in> set B"
      by (auto dest: set_zip_leftD set_zip_rightD)
    then show ?thesis using assms by (simp add: has_shape2_def)
  qed
  then show ?thesis using assms by (auto simp: has_shape2_def)
qed

lemma map2_entry:
  assumes "has_shape2 D1 D2 A" and "has_shape2 D1 D2 B" and "r < D1" and "c < D2"
  shows "map2 (map2 f) A B ! r ! c = f (A ! r ! c) (B ! r ! c)"
proof -
  have "length A = D1" "length B = D1" using assms(1,2) by (simp_all add: has_shape2_def)
  then have "map2 (map2 f) A B ! r = map2 f (A ! r) (B ! r)"
    using assms(3) by simp
  moreover have "length (A ! r) = D2" "length (B ! r) = D2"
    using assms by (simp_all add: has_shape2_row)
  ultimately show ?thesis using assms(4) by simp
qed

lemma madd_shape: "has_shape2 D1 D2 A \<Longrightarrow> has_shape2 D1 D2 B \<Longrightarrow> has_shape2 D1 D2 (madd A B)"
  unfolding madd_def by (rule map2_shape)

lemma msub_shape: "has_shape2 D1 D2 A \<Longrightarrow> has_shape2 D1 D2 B \<Longrightarrow> has_shape2 D1 D2 (msub A B)"
  unfolding msub_def by (rule map2_shape)

lemma madd_entry:
  "has_shape2 D1 D2 A \<Longrightarrow> has_shape2 D1 D2 B \<Longrightarrow> r < D1 \<Longrightarrow> c < D2
     \<Longrightarrow> madd A B ! r ! c = A ! r ! c + B ! r ! c"
  unfolding madd_def by (rule map2_entry)

lemma msub_entry:
  "has_shape2 D1 D2 A \<Longrightarrow> has_shape2 D1 D2 B \<Longrightarrow> r < D1 \<Longrightarrow> c < D2
     \<Longrightarrow> msub A B ! r ! c = A ! r ! c - B ! r ! c"
  unfolding msub_def by (rule map2_entry)

lemma mdiv_shape: "has_shape2 D1 D2 A \<Longrightarrow> has_shape2 D1 D2 (mdiv A k)"
  by (auto simp: has_shape2_def mdiv_def)

lemma mdiv_entry:
  "has_shape2 D1 D2 A \<Longrightarrow> r < D1 \<Longrightarrow> c < D2 \<Longrightarrow> mdiv A k ! r ! c = A ! r ! c / k"
  by (simp add: mdiv_def has_shape2_def)

lemma sum_axis0_shape:
  assumes "G \<noteq> []" and "\<forall>g \<in> set G. has_shape2 D1 D2 g"
  shows "has_shape2 D1 D2 (sum_axis0 G)"
proof -
  obtain g rest where G: "G = g # rest" using assms(1) by (cases G) auto
  have g: "has_shape2 D1 D2 g" using assms(2) G by simp
  then have "length g = D1" and "\<And>i. i < D1 \<Longrightarrow> length (g ! i) = D2"
    by (simp_all add: has_shape2_def)
  then show ?thesis
    by (auto simp: sum_axis0_def G has_shape2_def)
qed

lemma sum_axis0_entry:
  assumes "G \<noteq> []" and "\<forall>g \<in> set G. has_shape2 D1 D2 g" and "r < D1" and "c < D2"
  shows "sum_axis0 G ! r ! c = (\<Sum>h\<leftarrow>G. h ! r ! c)"
proof -
  obtain g rest where G: "G = g # rest" using assms(1) by (cases G) auto
  have g: "has_shape2 D1 D2 g" using assms(2) G by simp
  then have "length g = D1" and "length (g ! r) = D2"
    using assms(3) by (simp_all add: has_shape2_def)
  then show ?thesis
    using assms(3,4) by (simp add: sum_axis0_def G)
qed

lemma mean_axis0_shape:
  "G \<noteq> [] \<Longrightarrow> \<forall>g \<in> set G. has_shape2 D1 D2 g \<Longrightarrow> has_shape2 D1 D2 (mean_axis0 G)"
  unfolding mean_axis0_def by (rule mdiv_shape) (rule sum_axis0_shape)

lemma mean_axis0_entry:
  assumes "G \<noteq> []" and "\<forall>g \<in> set G. has_shape2 D1 D2 g" and "r < D1" and "c < D2"
  shows "mean_axis0 G ! r ! c = (\<Sum>h\<leftarrow>G. h ! r ! c) / real (length G)"
  unfolding mean_axis0_def
  using mdiv_entry [OF sum_axis0_shape [OF assms(1,2)] assms(3,4)]
    sum_axis0_entry [OF assms] by simp

section \<open>One step of a running mean\<close>

lemma running_mean_scalar:
  fixes a b :: real
  assumes "0 < n"
  shows "a / n + (b - a / n) / (n + 1) = (a + b) / (n + 1)"
proof -
  have n: "n \<noteq> 0" "n + 1 \<noteq> 0" using assms by auto
  have "(a / n + (b - a / n) / (n + 1)) * (n + 1) = a / n * (n + 1) + (b - a / n)"
    using n by (simp add: distrib_right)
  also have "\<dots> = a + b"
    using n by (simp add: distrib_left)
  finally have "(a / n + (b - a / n) / (n + 1)) * (n + 1) = a + b" .
  then show ?thesis using n by (simp add: eq_divide_eq)
qed

lemma running_total_scalar:
  fixes a b :: real
  assumes "0 < n" and "0 \<le> k"
  shows "a / n + (b - k * (a / n)) / (n + k) = (a + b) / (n + k)"
proof -
  have n: "n \<noteq> 0" "n + k \<noteq> 0" using assms by auto
  have "(a / n + (b - k * (a / n)) / (n + k)) * (n + k) = a / n * (n + k) + (b - k * (a / n))"
    using n by (simp add: distrib_right)
  also have "\<dots> = a + b"
    using n by (simp add: distrib_left)
  finally have "(a / n + (b - k * (a / n)) / (n + k)) * (n + k) = a + b" .
  then show ?thesis using n by (simp add: eq_divide_eq)
qed

lemma samples_mean_step:
  assumes X: "X \<noteq> []" and sX: "\<forall>g \<in> set X. has_shape2 D1 D2 g" and sg: "has_shape2 D1 D2 g'"
  shows "madd (mean_axis0 X) (mdiv (msub g' (mean_axis0 X)) (real (length X) + 1))
           = mean_axis0 (X @ [g'])"
proof (rule mat_eqI [where ?D1.0 = D1 and ?D2.0 = D2])
  have sM: "has_shape2 D1 D2 (mean_axis0 X)" by (rule mean_axis0_shape [OF X sX])
  have sD: "has_shape2 D1 D2 (msub g' (mean_axis0 X))" by (rule msub_shape [OF sg sM])
  have sQ: "has_shape2 D1 D2 (mdiv (msub g' (mean_axis0 X)) (real (length X) + 1))"
    by (rule mdiv_shape [OF sD])
  show "has_shape2 D1 D2 (madd (mean_axis0 X) (mdiv (msub g' (mean_axis0 X)) (real (length X) + 1)))"
    by (rule madd_shape [OF sM sQ])
  have sXg: "\<forall>g \<in> set (X @ [g']). has_shape2 D1 D2 g" using sX sg by simp
  show "has_shape2 D1 D2 (mean_axis0 (X @ [g']))"
    by (rule mean_axis0_shape [OF _ sXg]) simp
  fix r c assume r: "r < D1" and c: "c < D2"
  have n: "0 < real (length X)" using X by simp
  have "madd (mean_axis0 X) (mdiv (msub g' (mean_axis0 X)) (real (length X) + 1)) ! r ! c
      = (\<Sum>h\<leftarrow>X. h ! r ! c) / real (length X)
        + (g' ! r ! c - (\<Sum>h\<leftarrow>X. h ! r ! c) / real (length X)) / (real (length X) + 1)"
    by (simp add: madd_entry [OF sM sQ r c] mdiv_entry [OF sD r c] msub_entry [OF sg sM r c]
        mean_axis0_entry [OF X sX r c])
  also have "\<dots> = ((\<Sum>h\<leftarrow>X. h ! r ! c) + g' ! r ! c) / (real (length X) + 1)"
    by (rule running_mean_scalar [OF n])
  also have "\<dots> = mean_axis0 (X @ [g']) ! r ! c"
    using mean_axis0_entry [OF _ sXg r c] by (simp add: add.commute)
  finally show "madd (mean_axis0 X) (mdiv (msub g' (mean_axis0 X)) (real (length X) + 1)) ! r ! c
      = mean_axis0 (X @ [g']) ! r ! c" .
qed

lemma total_mean_step:
  assumes X: "X \<noteq> []" and sX: "\<forall>g \<in> set X. has_shape2 D1 D2 g"
    and G: "G \<noteq> []" and sG: "\<forall>g \<in> set G. has_shape2 D1 D2 g"
  shows "madd (mean_axis0 X)
           (mdiv (sum_axis0 (map (\<lambda>g. msub g (mean_axis0 X)) G)) (real (length X + length G)))
           = mean_axis0 (X @ G)"
proof (rule mat_eqI [where ?D1.0 = D1 and ?D2.0 = D2])
  let ?T = "mean_axis0 X"
  let ?Df = "map (\<lambda>g. msub g ?T) G"
  have sM: "has_shape2 D1 D2 ?T" by (rule mean_axis0_shape [OF X sX])
  have Df: "?Df \<noteq> []" using G by simp
  have sDf: "\<forall>h \<in> set ?Df. has_shape2 D1 D2 h"
    using sG sM by (auto intro: msub_shape)
  have sS: "has_shape2 D1 D2 (sum_axis0 ?Df)" by (rule sum_axis0_shape [OF Df sDf])
  have sQ: "has_shape2 D1 D2 (mdiv (sum_axis0 ?Df) (real (length X + length G)))"
    by (rule mdiv_shape [OF sS])
  show "has_shape2 D1 D2 (madd ?T (mdiv (sum_axis0 ?Df) (real (length X + length G))))"
    by (rule madd_shape [OF sM sQ])
  have sXG: "\<forall>g \<in> set (X @ G). has_shape2 D1 D2 g" using sX sG by auto
  have XG: "X @ G \<noteq> []" using X by simp
  show "has_shape2 D1 D2 (mean_axis0 (X @ G))" by (rule mean_axis0_shape [OF XG sXG])
  fix r c assume r: "r < D1" and c: "c < D2"
  have n: "0 < real (length X)" using X by simp
  have k: "0 \<le> real (length G)" by simp
  have "(\<Sum>h\<leftarrow>?Df. h ! r ! c) = (\<Sum>g\<leftarrow>G. g ! r ! c - ?T ! r ! c)"
  proof -
    have "map (\<lambda>h. h ! r ! c) ?Df = map (\<lambda>g. msub g ?T ! r ! c) G"
      by (simp add: comp_def)
    also have "\<dots> = map (\<lambda>g. g ! r ! c - ?T ! r ! c) G"
    proof (rule map_cong [OF refl])
      fix g assume "g \<in> set G"
      then have "has_shape2 D1 D2 g" using sG by simp
      then show "msub g ?T ! r ! c = g ! r ! c - ?T ! r ! c"
        by (rule msub_entry [OF _ sM r c])
    qed
    finally show ?thesis by (rule arg_cong [where f = sum_list])
  qed
  also have "\<dots> = (\<Sum>g\<leftarrow>G. g ! r ! c) - real (length G) * (?T ! r ! c)"
    by (simp add: sum_list_subtractf sum_list_triv)
  finally have df: "(\<Sum>h\<leftarrow>?Df. h ! r ! c)
      = (\<Sum>g\<leftarrow>G. g ! r ! c) - real (length G) * ((\<Sum>h\<leftarrow>X. h ! r ! c) / real (length X))"
    by (simp add: mean_axis0_entry [OF X sX r c])
  have "madd ?T (mdiv (sum_axis0 ?Df) (real (length X + length G))) ! r ! c
      = (\<Sum>h\<leftarrow>X. h ! r ! c) / real (length X)
        + ((\<Sum>g\<leftarrow>G. g ! r ! c) - real (length G) * ((\<Sum>h\<leftarrow>X. h ! r ! c) / real (length X)))
          / real (length X + length G)"
    by (simp only: madd_entry [OF sM sQ r c] mdiv_entry [OF sS r c]
        sum_axis0_entry [OF Df sDf r c] df mean_axis0_entry [OF X sX r c])
  also have "\<dots> = ((\<Sum>h\<leftarrow>X. h ! r ! c) + (\<Sum>g\<leftarrow>G. g ! r ! c))
                    / real (length X + length G)"
    using running_total_scalar [OF n k] by (simp only: of_nat_add)
  also have "\<dots> = mean_axis0 (X @ G) ! r ! c"
    by (simp only: mean_axis0_entry [OF XG sXG r c] map_append sum_list_append length_append)
  finally show "madd ?T (mdiv (sum_axis0 ?Df) (real (length X + length G))) ! r ! c
      = mean_axis0 (X @ G) ! r ! c" .
qed

section \<open>The aggregates of a GGN pass\<close>

lemma map_Inr_Cons:
  assumes "map cg (b # rest) = map Inr Gs"
  obtains G Gs' where "Gs = G # Gs'" and "cg b = Inr G" and "map cg rest = map Inr Gs'"
  using assms by (cases Gs) auto

lemma ggn_loop_total:
  assumes "ggn_loop cg sizes n k bs (length X, Some (mean_axis0 X), S) = (evs, Inr (c', t', s'))"
    and "map cg bs = map Inr Gs"
    and "X \<noteq> []" and "\<forall>g \<in> set X. has_shape2 D1 D2 g"
    and "\<forall>G \<in> set Gs. G \<noteq> [] \<and> (\<forall>g \<in> set G. has_shape2 D1 D2 g)"
  shows "c' = length (X @ concat Gs) \<and> t' = Some (mean_axis0 (X @ concat Gs))"
  using assms
proof (induction bs arbitrary: Gs X S k evs)
  case Nil
  then show ?case by simp
next
  case (Cons b rest)
  from Cons.prems(2) obtain G Gs' where Gs: "Gs = G # Gs'" and cg: "cg b = Inr G"
    and rest: "map cg rest = map Inr Gs'"
    by (rule map_Inr_Cons)
  from Cons.prems(5) have G: "G \<noteq> []" and sG: "\<forall>g \<in> set G. has_shape2 D1 D2 g"
    and sGs': "\<forall>G \<in> set Gs'. G \<noteq> [] \<and> (\<forall>g \<in> set G. has_shape2 D1 D2 g)"
    by (simp_all add: Gs)
  from Cons.prems(1) cg obtain S1 where S1: "samples_update S G (int k + 1) = Inr S1"
    by (cases "samples_update S G (int k + 1)") auto
  have tot: "total_update (Some (mean_axis0 X)) G (length X + length G) = mean_axis0 (X @ G)"
    unfolding total_update_def option.case
    by (rule total_mean_step [OF Cons.prems(3,4) G sG])
  obtain evs' r where rec:
    "ggn_loop cg sizes n (Suc k) rest (length (X @ G), Some (mean_axis0 (X @ G)), Some S1) = (evs', r)"
    by (cases "ggn_loop cg sizes n (Suc k) rest (length (X @ G), Some (mean_axis0 (X @ G)), Some S1)")
  from Cons.prems(1) have r: "r = Inr (c', t', s')"
    using rec by (simp add: cg S1 tot Let_def)
  have XG: "X @ G \<noteq> []" using Cons.prems(3) by simp
  have sXG: "\<forall>g \<in> set (X @ G). has_shape2 D1 D2 g" using Cons.prems(4) sG by auto
  from Cons.IH [OF rec [unfolded r] rest XG sXG sGs'] show ?case
    by (simp add: Gs)
qed

lemma mean_axis0_single:
  assumes "has_shape2 D1 D2 g"
  shows "mean_axis0 [g] = g"
proof (rule mat_eqI [where ?D1.0 = D1 and ?D2.0 = D2])
  have s: "\<forall>h \<in> set [g]. has_shape2 D1 D2 h" using assms by simp
  show "has_shape2 D1 D2 (mean_axis0 [g])" by (rule mean_axis0_shape [OF _ s]) simp
  show "has_shape2 D1 D2 g" by (rule assms)
  fix r c assume "r < D1" and "c < D2"
  then show "mean_axis0 [g] ! r ! c = g ! r ! c"
    using mean_axis0_entry [OF _ s, of r c] by simp
qed

lemma positional_mean_single:
  assumes "length G = N" and "\<forall>g \<in> set G. has_shape2 D1 D2 g"
  shows "positional_mean N [G] = G"
proof (rule nth_equalityI)
  show "length (positional_mean N [G]) = length G"
    using assms(1) by (simp add: positional_mean_def)
next
  fix i assume "i < length (positional_mean N [G])"
  then have i: "i < N" by (simp add: positional_mean_def)
  then have "has_shape2 D1 D2 (G ! i)" using assms by simp
  then show "positional_mean N [G] ! i = G ! i"
    using i by (simp add: positional_mean_def mean_axis0_single)
qed

lemma samples_update_step:
  assumes Xs: "Xs \<noteq> []"
    and sXs: "\<forall>G \<in> set Xs. length G = N \<and> (\<forall>g \<in> set G. has_shape2 D1 D2 g)"
    and G: "length G = N" and sG: "\<forall>g \<in> set G. has_shape2 D1 D2 g"
  shows "samples_update (Some (positional_mean N Xs)) G (int (length Xs) + 1)
           = Inr (positional_mean N (Xs @ [G]))"
proof -
  let ?S = "positional_mean N Xs"
  let ?m = "real_of_int (int (length Xs) + 1)"
  have lS: "length ?S = N" by (simp add: positional_mean_def)
  have b1: "broadcast0 msub G ?S = Inr (map2 msub G ?S)"
    using G lS by (simp add: broadcast0_def)
  have b2: "broadcast0 madd ?S (map (\<lambda>A. mdiv A ?m) (map2 msub G ?S))
              = Inr (map2 madd ?S (map (\<lambda>A. mdiv A ?m) (map2 msub G ?S)))"
    using G lS by (simp add: broadcast0_def)
  have "map2 madd ?S (map (\<lambda>A. mdiv A ?m) (map2 msub G ?S)) = positional_mean N (Xs @ [G])"
  proof (rule nth_equalityI)
    show "length (map2 madd ?S (map (\<lambda>A. mdiv A ?m) (map2 msub G ?S)))
            = length (positional_mean N (Xs @ [G]))"
      using G lS by (simp add: positional_mean_def)
  next
    fix i assume "i < length (map2 madd ?S (map (\<lambda>A. mdiv A ?m) (map2 msub G ?S)))"
    then have i: "i < N" using G lS by simp
    let ?X = "map (\<lambda>H. H ! i) Xs"
    have X: "?X \<noteq> []" using Xs by simp
    have sX: "\<forall>g \<in> set ?X. has_shape2 D1 D2 g" using sXs i by auto
    have sg: "has_shape2 D1 D2 (G ! i)" using sG G i by simp
    have Si: "?S ! i = mean_axis0 ?X" using i by (simp add: positional_mean_def)
    have "map2 madd ?S (map (\<lambda>A. mdiv A ?m) (map2 msub G ?S)) ! i
        = madd (mean_axis0 ?X) (mdiv (msub (G ! i) (mean_axis0 ?X)) (real (length ?X) + 1))"
      using i G lS by (simp add: Si)
    also have "\<dots> = mean_axis0 (?X @ [G ! i])"
      by (rule samples_mean_step [OF X sX sg])
    also have "\<dots> = positional_mean N (Xs @ [G]) ! i"
      using i by (simp add: positional_mean_def)
    finally show "map2 madd ?S (map (\<lambda>A. mdiv A ?m) (map2 msub G ?S)) ! i
        = positional_mean N (Xs @ [G]) ! i" .
  qed
  then show ?thesis
    by (simp only: samples_update_def option.case b1 b2 sum.case)
qed

lemma ggn_loop_samples:
  assumes "map cg bs = map Inr Gs"
    and "Xs \<noteq> []"
    and "\<forall>G \<in> set Xs. length G = N \<and> (\<forall>g \<in> set G. has_shape2 D1 D2 g)"
    and "\<forall>G \<in> set Gs. length G = N \<and> (\<forall>g \<in> set G. has_shape2 D1 D2 g)"
  shows "\<exists>evs c t. ggn_loop cg sizes n (length Xs) bs (c0, t0, Some (positional_mean N Xs))
           = (evs, Inr (c, t, Some (positional_mean N (Xs @ Gs))))"
  using assms
proof (induction bs arbitrary: Gs Xs c0 t0)
  case Nil
  then show ?case by simp
next
  case (Cons b rest)
  from Cons.prems(1) obtain G Gs' where Gs: "Gs = G # Gs'" and cg: "cg b = Inr G"
    and rest: "map cg rest = map Inr Gs'"
    by (rule map_Inr_Cons)
  from Cons.prems(4) have G: "length G = N" and sG: "\<forall>g \<in> set G. has_shape2 D1 D2 g"
    and sGs': "\<forall>G \<in> set Gs'. length G = N \<and> (\<forall>g \<in> set G. has_shape2 D1 D2 g)"
    by (simp_all add: Gs)
  have su: "samples_update (Some (positional_mean N Xs)) G (int (length Xs) + 1)
              = Inr (positional_mean N (Xs @ [G]))"
    by (rule samples_update_step [OF Cons.prems(2,3) G sG])
  have X': "Xs @ [G] \<noteq> []" by simp
  have sX': "\<forall>H \<in> set (Xs @ [G]). length H = N \<and> (\<forall>g \<in> set H. has_shape2 D1 D2 g)"
    using Cons.prems(3) G sG by auto
  from Cons.IH [OF rest X' sX' sGs', of "c0 + length G"
      "Some (total_update t0 G (c0 + length G))"]
  obtain evs' c t where
    "ggn_loop cg sizes n (Suc (length Xs)) rest
       (c0 + length G, Some (total_update t0 G (c0 + length G)), Some (positional_mean N (Xs @ [G])))
     = (evs', Inr (c, t, Some (positional_mean N (Xs @ G # Gs'))))"
    by auto
  then show ?case
    by (simp add: cg su Gs Let_def)
qed

text \<open>
  Claim C2. Whenever the accumulation loop has got through \<open>k \<ge> 1\<close> non-empty batches of
  \<open>D \<times> D\<close> matrices, of any sizes, \<^verbatim>\<open>GGN_counter\<close> is the number of items seen and
  \<^verbatim>\<open>GGN_total\<close> is the mean over axis 0 of all items of those batches put together: its
  entry \<open>(r, c)\<close> is the sum of the entries \<open>(r, c)\<close> of all items divided by their number.
  For one batch this is that batch's own mean.
\<close>

theorem total_is_mean_of_items:
  assumes "ggn_loop cg ggn_batch_sizes n_steps 0 bs (0, None, None)
             = (evs, Inr (GGN_counter, GGN_total, GGN_samples))"
    and "map cg bs = map Inr Gs" and "bs \<noteq> []"
    and "\<forall>G \<in> set Gs. G \<noteq> [] \<and> (\<forall>g \<in> set G. has_shape2 D D g)"
  shows "GGN_counter = length (concat Gs)
       \<and> GGN_total = Some (mean_axis0 (concat Gs))
       \<and> total_update None (hd Gs) (length (hd Gs)) = mean_axis0 (hd Gs)
       \<and> has_shape2 D D (mean_axis0 (concat Gs))
       \<and> (\<forall>r < D. \<forall>c < D.
            mean_axis0 (concat Gs) ! r ! c
              = (\<Sum>g\<leftarrow>concat Gs. g ! r ! c) / real (length (concat Gs)))"
proof -
  from assms(3) obtain b rest where bs: "bs = b # rest" by (cases bs) auto
  from assms(2) [unfolded bs] obtain G Gs' where Gs: "Gs = G # Gs'" and cg: "cg b = Inr G"
    and rest: "map cg rest = map Inr Gs'"
    by (rule map_Inr_Cons)
  from assms(4) have G: "G \<noteq> []" and sG: "\<forall>g \<in> set G. has_shape2 D D g"
    and sGs': "\<forall>G \<in> set Gs'. G \<noteq> [] \<and> (\<forall>g \<in> set G. has_shape2 D D g)"
    by (simp_all add: Gs)
  obtain evs' r where rec:
    "ggn_loop cg ggn_batch_sizes n_steps (Suc 0) rest (length G, Some (mean_axis0 G), Some G)
       = (evs', r)"
    by (cases "ggn_loop cg ggn_batch_sizes n_steps (Suc 0) rest
                 (length G, Some (mean_axis0 G), Some G)")
  from assms(1) have r: "r = Inr (GGN_counter, GGN_total, GGN_samples)"
    using rec by (simp add: bs cg samples_update_def total_update_def Let_def)
  from ggn_loop_total [OF rec [unfolded r] rest G sG sGs']
  have c: "GGN_counter = length (concat Gs)" and t: "GGN_total = Some (mean_axis0 (concat Gs))"
    by (simp_all add: Gs)
  have ne: "concat Gs \<noteq> []" using G by (simp add: Gs)
  have sh: "\<forall>g \<in> set (concat Gs). has_shape2 D D g" using assms(4) by auto
  have m: "has_shape2 D D (mean_axis0 (concat Gs))" by (rule mean_axis0_shape [OF ne sh])
  have e: "\<forall>r < D. \<forall>c < D.
            mean_axis0 (concat Gs) ! r ! c
              = (\<Sum>g\<leftarrow>concat Gs. g ! r ! c) / real (length (concat Gs))"
    using mean_axis0_entry [OF ne sh] by blast
  have f: "total_update None (hd Gs) (length (hd Gs)) = mean_axis0 (hd Gs)"
    by (simp add: total_update_def)
  show ?thesis by (intro conjI c t f m e)
qed

theorem total_is_mean_of_items_witness:
  "ggn_loop Inr [] 0 0 [[[[1]], [[2]]], [[[6 :: real]]]] (0, None, None)
     = ([], Inr (3, Some [[3]], Some [[[7 / 2]], [[4]]]))
   \<and> concat [[[[1]], [[2]]], [[[6 :: real]]]] = [[[1]], [[2]], [[6]]]
   \<and> mean_axis0 [[[1]], [[2]], [[6]]] = [[3]]"
proof -
  have e: "ggn_loop Inr [] 0 0 [[[[1]], [[2]]], [[[6 :: real]]]] (0, None, None)
     = ([], Inr (3, Some [[3]], Some [[[7 / 2]], [[4]]]))"
    by code_simp
  have h: "\<forall>G \<in> set [[[[1]], [[2]]], [[[6 :: real]]]].
             G \<noteq> [] \<and> (\<forall>g \<in> set G. has_shape2 1 1 g)"
    by (simp add: has_shape2_def)
  have k: "concat [[[[1]], [[2]]], [[[6 :: real]]]] = [[[1]], [[2]], [[6]]]"
    by simp
  have "Some [[3]] = Some (mean_axis0 (concat [[[[1]], [[2]]], [[[6 :: real]]]]))"
    using total_is_mean_of_items [OF e _ _ h] by simp
  then have m: "mean_axis0 [[[1]], [[2]], [[6 :: real]]] = [[3]]"
    by (simp only: k option.inject)
  show ?thesis
    by (intro conjI e k m)
qed

lemma positional_mean_entry:
  assumes "Gs \<noteq> []" and "\<forall>G \<in> set Gs. length G = N \<and> (\<forall>g \<in> set G. has_shape2 D1 D2 g)"
    and "i < N" and "r < D1" and "c < D2"
  shows "positional_mean N Gs ! i ! r ! c = (\<Sum>G\<leftarrow>Gs. G ! i ! r ! c) / real (length Gs)"
proof -
  let ?X = "map (\<lambda>G. G ! i) Gs"
  have X: "?X \<noteq> []" using assms(1) by simp
  have sX: "\<forall>g \<in> set ?X. has_shape2 D1 D2 g" using assms(2,3) by auto
  have "positional_mean N Gs ! i = mean_axis0 ?X"
    using assms(3) by (simp add: positional_mean_def)
  then show ?thesis
    using mean_axis0_entry [OF X sX assms(4,5)] by (simp add: comp_def)
qed

text \<open>
  Claim C3. When every batch holds \<open>N\<close> matrices of shape \<open>D \<times> D\<close>, the loop over \<open>m \<ge> 1\<close>
  batches returns, and its samples aggregate has at position \<open>i\<close> the mean over the \<open>m\<close>
  batches of the item at position \<open>i\<close>; the first batch is taken over as it is.
\<close>

theorem samples_is_positional_mean:
  assumes "map cg bs = map Inr Gs" and "bs \<noteq> []" and "0 < N"
    and "\<forall>G \<in> set Gs. length G = N \<and> (\<forall>g \<in> set G. has_shape2 D D g)"
  shows "(\<exists>evs GGN_counter GGN_total.
            ggn_loop cg ggn_batch_sizes n_steps 0 bs (0, None, None)
              = (evs, Inr (GGN_counter, GGN_total, Some (positional_mean N Gs))))
       \<and> (\<forall>i < N. \<forall>r < D. \<forall>c < D.
            positional_mean N Gs ! i ! r ! c = (\<Sum>G\<leftarrow>Gs. G ! i ! r ! c) / real (length Gs))
       \<and> samples_update None (hd Gs) 1 = Inr (hd Gs)
       \<and> positional_mean N [hd Gs] = hd Gs"
proof -
  from assms(2) obtain b rest where bs: "bs = b # rest" by (cases bs) auto
  from assms(1) [unfolded bs] obtain G Gs' where Gs: "Gs = G # Gs'" and cg: "cg b = Inr G"
    and rest: "map cg rest = map Inr Gs'"
    by (rule map_Inr_Cons)
  from assms(4) have G: "length G = N" and sG: "\<forall>g \<in> set G. has_shape2 D D g"
    and sGs': "\<forall>G \<in> set Gs'. length G = N \<and> (\<forall>g \<in> set G. has_shape2 D D g)"
    by (simp_all add: Gs)
  have single: "positional_mean N [G] = G" by (rule positional_mean_single [OF G sG])
  have s1: "\<forall>H \<in> set [G]. length H = N \<and> (\<forall>g \<in> set H. has_shape2 D D g)"
    using G sG by simp
  from ggn_loop_samples [OF rest _ s1 sGs', of ggn_batch_sizes n_steps "length G"
      "Some (total_update None G (length G))"]
  obtain evs' c t where
    "ggn_loop cg ggn_batch_sizes n_steps (Suc 0) rest
       (length G, Some (total_update None G (length G)), Some G)
     = (evs', Inr (c, t, Some (positional_mean N Gs)))"
    by (auto simp: single Gs)
  then have a: "\<exists>evs GGN_counter GGN_total.
            ggn_loop cg ggn_batch_sizes n_steps 0 bs (0, None, None)
              = (evs, Inr (GGN_counter, GGN_total, Some (positional_mean N Gs)))"
    by (simp add: bs cg samples_update_def Let_def)
  have ne: "Gs \<noteq> []" by (simp add: Gs)
  have b: "\<forall>i < N. \<forall>r < D. \<forall>c < D.
            positional_mean N Gs ! i ! r ! c = (\<Sum>G\<leftarrow>Gs. G ! i ! r ! c) / real (length Gs)"
    using positional_mean_entry [OF ne assms(4)] by blast
  have c: "samples_update None (hd Gs) 1 = Inr (hd Gs)"
    by (simp add: samples_update_def)
  show ?thesis using a b c single by (simp add: Gs)
qed

theorem samples_is_positional_mean_witness:
  "ggn_loop Inr [] 0 0 [[[[1]], [[2]]], [[[5]], [[8 :: real]]]] (0, None, None)
     = ([], Inr (4, Some [[4]], Some [[[3]], [[5]]]))
   \<and> positional_mean 2 [[[[1]], [[2]]], [[[5]], [[8 :: real]]]] = [[[3]], [[5]]]
   \<and> samples_update None [[[1]], [[2 :: real]]] 1 = Inr [[[1]], [[2]]]"
proof -
  have e: "ggn_loop Inr [] 0 0 [[[[1]], [[2]]], [[[5]], [[8 :: real]]]] (0, None, None)
     = ([], Inr (4, Some [[4]], Some [[[3]], [[5]]]))"
    by code_simp
  have p: "positional_mean 2 [[[[1]], [[2]]], [[[5]], [[8 :: real]]]] = [[[3]], [[5]]]"
    by code_simp
  have h: "\<forall>G \<in> set [[[[1]], [[2]]], [[[5]], [[8 :: real]]]].
             length G = 2 \<and> (\<forall>g \<in> set G. has_shape2 1 1 g)"
    by (simp add: has_shape2_def)
  from samples_is_positional_mean [of Inr "[[[[1]], [[2]]], [[[5]], [[8 :: real]]]]"
      "[[[[1]], [[2]]], [[[5]], [[8 :: real]]]]" 2 1 "[]" 0, OF refl _ _ h]
  show ?thesis using e p by simp
qed

lemma samples_update_fails_iff:
  "(samples_update (Some S) G m = Inl IncompatibleShapes)
     = (length G \<noteq> length S \<and> length G \<noteq> 1 \<and> length S \<noteq> 1)"
  by (auto simp: samples_update_def broadcast0_def)

text \<open>
  Claim C8, amended. The samples update raises exactly when the batch size of the new
  tensor differs from that of the aggregate and neither of the two is 1; the loop then
  stops at once with that error, without any further event. When the sizes differ and one
  of them is 1, the update returns a value: the axis of length 1 is stretched.
\<close>

theorem samples_update_mismatch:
  "(samples_update (Some S) G m = Inl IncompatibleShapes)
     = (length G \<noteq> length S \<and> length G \<noteq> 1 \<and> length S \<noteq> 1)
   \<and> (length G \<noteq> length S \<and> length G \<noteq> 1 \<and> length S \<noteq> 1 \<and> cg b = Inr G
        \<longrightarrow> ggn_loop cg sizes n k (b # rest) (c, T, Some S) = ([], Inl IncompatibleShapes))
   \<and> (length G \<noteq> length S \<and> (length G = 1 \<or> length S = 1)
        \<longrightarrow> (\<exists>S'. samples_update (Some S) G m = Inr S'
                   \<and> length S' = (if length G = 1 then length S else length G)))"
proof (intro conjI impI)
  show "(samples_update (Some S) G m = Inl IncompatibleShapes)
     = (length G \<noteq> length S \<and> length G \<noteq> 1 \<and> length S \<noteq> 1)"
    by (rule samples_update_fails_iff)
  assume a: "length G \<noteq> length S \<and> length G \<noteq> 1 \<and> length S \<noteq> 1 \<and> cg b = Inr G"
  then have "samples_update (Some S) G (int k + 1) = Inl IncompatibleShapes"
    by (simp add: samples_update_fails_iff)
  then show "ggn_loop cg sizes n k (b # rest) (c, T, Some S) = ([], Inl IncompatibleShapes)"
    using a by simp
next
  assume "length G \<noteq> length S \<and> (length G = 1 \<or> length S = 1)"
  then show "\<exists>S'. samples_update (Some S) G m = Inr S'
                \<and> length S' = (if length G = 1 then length S else length G)"
    by (auto simp: samples_update_def broadcast0_def)
qed

theorem samples_update_mismatch_witness:
  "samples_update (Some [[[1]], [[2]]]) [[[3]], [[4]], [[5 :: real]]] 2 = Inl IncompatibleShapes
   \<and> ggn_loop Inr [1, 2] 0 0 [[[[1]], [[2]]], [[[3]], [[4]], [[5 :: real]]]] (0, None, None)
       = ([SaveSamples [[[1]], [[2]]] 0 1], Inl IncompatibleShapes)
   \<and> samples_update (Some [[[1]], [[2]]]) [[[3 :: real]]] 2 = Inr [[[2]], [[5 / 2]]]"
proof -
  have e: "ggn_loop Inr [1, 2] 0 0 [[[[1]], [[2]]], [[[3]], [[4]], [[5 :: real]]]] (0, None, None)
       = ([SaveSamples [[[1]], [[2]]] 0 1], Inl IncompatibleShapes)"
    by code_simp
  have v: "samples_update (Some [[[1]], [[2]]]) [[[3 :: real]]] 2 = Inr [[[2]], [[5 / 2]]]"
    by code_simp
  have t: "samples_update (Some [[[1]], [[2]]]) [[[3]], [[4]], [[5 :: real]]] 2
             = Inl IncompatibleShapes"
    using samples_update_mismatch [THEN conjunct1, of "[[[1]], [[2]]]"
        "[[[3]], [[4]], [[5 :: real]]]" 2]
    by simp
  show ?thesis using t e v by blast
qed

theorem samples_update_mismatch_counterexample:
  "length [[[3 :: real]]] \<noteq> length [[[1 :: real]], [[2]]]
   \<and> samples_update (Some [[[1]], [[2]]]) [[[3 :: real]]] 2 = Inr [[[2]], [[5 / 2]]]
   \<and> ggn_pass Inr [] 0 [[[[1]], [[2]]], [[[3 :: real]]]]
       = ([SaveTotal (Some [[2]]) 0], Inr (3, Some [[2]], Some [[[2]], [[5 / 2]]]))"
  by code_simp

section \<open>Flattening the leaves of the Jacobian\<close>

lemma sum_list_const:
  "(\<forall>x \<in> set xs. f x = (c::nat)) \<Longrightarrow> sum_list (map f xs) = length xs * c"
  by (induction xs) auto

lemma length_flatten:
  "has_shape S l \<Longrightarrow> length (flatten l) = prod_list S"
proof (induction S l rule: has_shape.induct)
  case (2 k ks xs)
  then have "\<forall>x \<in> set xs. length (flatten x) = prod_list ks" by simp
  then have "sum_list (map (\<lambda>x. length (flatten x)) xs) = length xs * prod_list ks"
    by (rule sum_list_const)
  then show ?case using 2 by (simp add: length_concat comp_def)
qed simp_all

lemma chunk_concat:
  assumes "\<forall>xs \<in> set xss. length xs = d" and "i < length xss"
  shows "take d (drop (i * d) (concat xss)) = xss ! i"
  using assms
proof (induction xss arbitrary: i)
  case Nil
  then show ?case by simp
next
  case (Cons xs xss)
  show ?case
  proof (cases i)
    case 0
    then show ?thesis using Cons.prems by simp
  next
    case (Suc j)
    then have "take d (drop (j * d) (concat xss)) = xss ! j"
      using Cons.prems by (intro Cons.IH) auto
    then show ?thesis using Cons.prems Suc by simp
  qed
qed

lemma nth_concat_groups:
  assumes "\<forall>ys \<in> set yss. length ys = C" and "n < length yss" and "a < C"
  shows "concat yss ! (n * C + a) = yss ! n ! a"
  using assms
proof (induction yss arbitrary: n)
  case Nil
  then show ?case by simp
next
  case (Cons ys yss)
  show ?case
  proof (cases n)
    case 0
    then show ?thesis using Cons.prems by (simp add: nth_append)
  next
    case (Suc m)
    then have "concat yss ! (m * C + a) = yss ! m ! a"
      using Cons.prems by (intro Cons.IH) auto
    then show ?thesis using Cons.prems Suc by (simp add: nth_append)
  qed
qed

lemma length_concat_groups:
  "\<forall>ys \<in> set yss. length ys = C \<Longrightarrow> length (concat yss) = length yss * C"
  by (induction yss) auto

lemma concat_map_concat: "concat (map concat xss) = concat (concat xss)"
  by (induction xss) auto

lemma has_shape_Cons_items:
  assumes "has_shape (k # ks) l"
  shows "l = Ar (items l) \<and> length (items l) = k \<and> (\<forall>x \<in> set (items l). has_shape ks x)"
  using assms by (cases l) auto

lemma index_bound:
  fixes n a :: nat
  assumes "n < N" and "a < C"
  shows "n * C + a < N * C"
proof -
  have "n * C + a < n * C + C" using assms(2) by simp
  also have "\<dots> = Suc n * C" by simp
  also have "\<dots> \<le> N * C" using assms(1) by (intro mult_le_mono1) simp
  finally show ?thesis .
qed

lemma reshape_NC_shaped:
  assumes l: "has_shape (N # C # S) l" and N: "0 < N" and C: "0 < C"
  shows "reshape_NC N C l
           = Inr (map (\<lambda>n. map (\<lambda>a. flatten (items (items l ! n) ! a)) [0..<C]) [0..<N])"
proof -
  define ns where "ns = items l"
  define groups where "groups = map (\<lambda>x. map flatten (items x)) ns"
  define pieces where "pieces = concat groups"
  define d where "d = prod_list S"
  from has_shape_Cons_items [OF l]
  have lA: "l = Ar ns" and lns: "length ns = N" and sns: "\<forall>x \<in> set ns. has_shape (C # S) x"
    by (simp_all add: ns_def)
  have item: "x = Ar (items x) \<and> length (items x) = C \<and> (\<forall>z \<in> set (items x). has_shape S z)"
    if "x \<in> set ns" for x
    using sns that by (intro has_shape_Cons_items) simp
  have fl_item: "flatten x = concat (map flatten (items x))" if "x \<in> set ns" for x
  proof -
    from item [OF that] have "x = Ar (items x)" by simp
    then have "flatten x = flatten (Ar (items x))" by simp
    then show ?thesis by simp
  qed
  have "flatten l = concat (map flatten ns)" by (subst lA) simp
  also have "map flatten ns = map concat groups"
    unfolding groups_def using fl_item by (simp add: comp_def)
  also have "concat (map concat groups) = concat pieces"
    unfolding pieces_def by (rule concat_map_concat)
  finally have flat: "flatten l = concat pieces" .
  have gC: "\<forall>ys \<in> set groups. length ys = C"
    unfolding groups_def using item by auto
  have lg: "length groups = N" by (simp add: groups_def lns)
  have lp: "length pieces = N * C"
    unfolding pieces_def using length_concat_groups [OF gC] lg by simp
  have pd: "\<forall>xs \<in> set pieces. length xs = d"
  proof
    fix xs assume "xs \<in> set pieces"
    then obtain x z where "x \<in> set ns" and "z \<in> set (items x)" and xs: "xs = flatten z"
      unfolding pieces_def groups_def by auto
    then have "has_shape S z" using item by blast
    then show "length xs = d" unfolding xs d_def by (rule length_flatten)
  qed
  have sz: "length (flatten l) = N * C * d"
    unfolding flat using length_concat_groups [OF pd] lp by simp
  have NC: "N * C \<noteq> 0" using N C by simp
  have dv: "length (flatten l) div (N * C) = d" and md: "length (flatten l) mod (N * C) = 0"
    using NC by (simp_all add: sz)
  have piece: "take d (drop ((n * C + a) * d) (flatten l)) = flatten (items (items l ! n) ! a)"
    if n: "n < N" and a: "a < C" for n a
  proof -
    have i: "n * C + a < length pieces" unfolding lp by (rule index_bound [OF n a])
    have "take d (drop ((n * C + a) * d) (concat pieces)) = pieces ! (n * C + a)"
      by (rule chunk_concat [OF pd i])
    also have "\<dots> = groups ! n ! a"
      unfolding pieces_def using gC n a lg by (intro nth_concat_groups) simp_all
    also have "\<dots> = flatten (items (ns ! n) ! a)"
    proof -
      have "ns ! n \<in> set ns" using n lns by simp
      then have "length (items (ns ! n)) = C" using item by blast
      then show ?thesis using n a lns by (simp add: groups_def)
    qed
    finally show ?thesis by (simp add: flat ns_def)
  qed
  have "map (\<lambda>n. map (\<lambda>a. take d (drop ((n * C + a) * d) (flatten l))) [0..<C]) [0..<N]
      = map (\<lambda>n. map (\<lambda>a. flatten (items (items l ! n) ! a)) [0..<C]) [0..<N]"
    using piece by simp
  then show ?thesis
    using NC by (simp add: reshape_NC_def Let_def dv md)
qed

lemma sequence_map_Inr:
  "(\<forall>x \<in> set xs. f x = Inr (g x)) \<Longrightarrow> sequence (map f xs) = Inr (map g xs)"
  by (induction xs) auto

section \<open>The contraction is the sandwich product\<close>

lemma einsum_item_sandwich:
  "map (\<lambda>x. map (\<lambda>y. (\<Sum>a\<leftarrow>[0..<C]. \<Sum>b\<leftarrow>[0..<C]. Jn ! a ! x * Hn ! a ! b * Jn ! b ! y))
          [0..<D]) [0..<D]
     = matmul D C D (mat_transpose C D Jn) (matmul C C D Hn Jn)"
proof -
  have entry: "(\<Sum>a\<leftarrow>[0..<C]. \<Sum>b\<leftarrow>[0..<C]. Jn ! a ! x * Hn ! a ! b * Jn ! b ! y)
      = (\<Sum>l\<leftarrow>[0..<C]. mat_transpose C D Jn ! x ! l * matmul C C D Hn Jn ! l ! y)"
    if x: "x < D" and y: "y < D" for x y
  proof -
    have "map (\<lambda>a. \<Sum>b\<leftarrow>[0..<C]. Jn ! a ! x * Hn ! a ! b * Jn ! b ! y) [0..<C]
        = map (\<lambda>l. mat_transpose C D Jn ! x ! l * matmul C C D Hn Jn ! l ! y) [0..<C]"
    proof (rule map_cong [OF refl])
      fix a assume "a \<in> set [0..<C]"
      then have a: "a < C" by simp
      have t: "mat_transpose C D Jn ! x ! a = Jn ! a ! x"
        using x a by (simp add: mat_transpose_def)
      have m: "matmul C C D Hn Jn ! a ! y = (\<Sum>b\<leftarrow>[0..<C]. Hn ! a ! b * Jn ! b ! y)"
        using a y by (simp add: matmul_def)
      have "(\<Sum>b\<leftarrow>[0..<C]. Jn ! a ! x * Hn ! a ! b * Jn ! b ! y)
          = (\<Sum>b\<leftarrow>[0..<C]. Jn ! a ! x * (Hn ! a ! b * Jn ! b ! y))"
        by (simp add: mult.assoc)
      also have "\<dots> = Jn ! a ! x * (\<Sum>b\<leftarrow>[0..<C]. Hn ! a ! b * Jn ! b ! y)"
        by (rule sum_list_const_mult)
      finally show "(\<Sum>b\<leftarrow>[0..<C]. Jn ! a ! x * Hn ! a ! b * Jn ! b ! y)
          = mat_transpose C D Jn ! x ! a * matmul C C D Hn Jn ! a ! y"
        by (simp only: t m)
    qed
    then show ?thesis by (rule arg_cong [where f = sum_list])
  qed
  show ?thesis
    unfolding matmul_def [of D C D]
    by (intro map_cong refl) (simp add: entry)
qed

lemma list_all2_sum_list:
  "list_all2 (\<lambda>l S. f l = (g S :: nat)) ls Ss \<Longrightarrow> sum_list (map f ls) = sum_list (map g Ss)"
  by (induction rule: list_all2_induct) auto

lemma shaped_piece:
  assumes "has_shape (N # C # S) l" and "n < N" and "a < C"
  shows "has_shape S (items (items l ! n) ! a)"
proof -
  from has_shape_Cons_items [OF assms(1)] assms(2)
  have "has_shape (C # S) (items l ! n)" by simp
  from has_shape_Cons_items [OF this] assms(3) show ?thesis by simp
qed

lemma jacobian_item_row_length:
  assumes "list_all2 (\<lambda>l S. has_shape (N # C # S) l) leaves shapes" and "n < N" and "a < C"
  shows "length (jacobian_item C leaves n ! a) = (\<Sum>S\<leftarrow>shapes. prod_list S)"
proof -
  have "list_all2 (\<lambda>l S. length (flatten (items (items l ! n) ! a)) = prod_list S) leaves shapes"
    using assms(1)
    by (rule list_all2_mono) (rule length_flatten, rule shaped_piece [OF _ assms(2,3)])
  then have "(\<Sum>l\<leftarrow>leaves. length (flatten (items (items l ! n) ! a))) = (\<Sum>S\<leftarrow>shapes. prod_list S)"
    by (rule list_all2_sum_list)
  then show ?thesis
    using assms(3) by (simp add: jacobian_item_def length_concat comp_def)
qed

lemma compute_ggn_result:
  assumes N: "0 < length (apply_fn E state x)"
    and rows: "\<forall>row \<in> set (apply_fn E state x). length row = C" and C: "0 < C"
    and y: "length y = length (apply_fn E state x)"
    and leaves: "tree_leaves E (jacrev_model E state x) \<noteq> []"
    and shapes: "list_all2 (\<lambda>l S. has_shape (length (apply_fn E state x) # C # S) l)
                   (tree_leaves E (jacrev_model E state x)) shapes"
  shows "compute_ggn E state (x, y)
           = Inr (einsum_nax_nab_nby (length (apply_fn E state x)) C (\<Sum>S\<leftarrow>shapes. prod_list S)
                    (map (jacobian_item C (tree_leaves E (jacrev_model E state x)))
                       [0..<length (apply_fn E state x)])
                    (map2 (hess_loss E) (apply_fn E state x) y))"
proof -
  define logits where "logits = apply_fn E state x"
  define N where "N = length logits"
  define ls where "ls = tree_leaves E (jacrev_model E state x)"
  define R where "R = (\<lambda>l. map (\<lambda>n. map (\<lambda>a. flatten (items (items l ! n) ! a)) [0..<C]) [0..<N])"
  define J where "J = map (jacobian_item C ls) [0..<N]"
  have Npos: "0 < N" using N by (simp add: N_def logits_def)
  have Cc: "(case logits of [] \<Rightarrow> 0 | r # _ \<Rightarrow> length r) = C"
    using N rows by (cases logits) (auto simp: logits_def)
  have v: "vmap2 (hess_loss E) logits y = Inr (map2 (hess_loss E) logits y)"
    using y by (simp add: vmap2_def logits_def)
  have sh: "\<forall>l \<in> set ls. \<exists>S. has_shape (N # C # S) l"
  proof
    fix l assume "l \<in> set ls"
    then obtain i where i: "i < length ls" and l: "l = ls ! i"
      by (auto simp: in_set_conv_nth)
    from shapes have "has_shape (N # C # shapes ! i) (ls ! i)"
      unfolding ls_def N_def logits_def using i [unfolded ls_def]
      by (simp add: list_all2_conv_all_nth)
    then show "\<exists>S. has_shape (N # C # S) l" unfolding l by blast
  qed
  have "\<forall>l \<in> set ls. reshape_NC N C l = Inr (R l)"
  proof
    fix l assume "l \<in> set ls"
    then obtain S where "has_shape (N # C # S) l" using sh by blast
    then show "reshape_NC N C l = Inr (R l)"
      unfolding R_def by (rule reshape_NC_shaped [OF _ Npos C])
  qed
  then have sq: "sequence (map (reshape_NC N C) ls) = Inr (map R ls)"
    by (rule sequence_map_Inr)
  have "map (\<lambda>n. map (\<lambda>a. concat (map (\<lambda>l. l ! n ! a) (map R ls))) [0..<C]) [0..<N] = J"
    unfolding J_def jacobian_item_def
    by (intro map_cong refl) (simp add: R_def comp_def)
  then have cat: "concatenate_axis2 N C (map R ls) = Inr J"
    using leaves by (simp add: concatenate_axis2_def ls_def)
  have lst: "[0..<N] = 0 # [1..<N]" and lstC: "[0..<C] = 0 # [1..<C]"
    using Npos C by (simp_all add: upt_conv_Cons)
  have "jacobian_item C ls 0 \<noteq> []" using C by (simp add: jacobian_item_def)
  then obtain r rs where row0: "jacobian_item C ls 0 = r # rs"
    by (cases "jacobian_item C ls 0") auto
  have "J = (r # rs) # map (jacobian_item C ls) [1..<N]"
    unfolding J_def by (subst lst) (simp add: row0)
  then have "last_dim J = length r" by (simp add: last_dim_def)
  also have "\<dots> = length (jacobian_item C ls 0 ! 0)" by (simp add: row0)
  also have "\<dots> = (\<Sum>S\<leftarrow>shapes. prod_list S)"
    using shapes Npos C unfolding ls_def N_def logits_def
    by (intro jacobian_item_row_length)
  finally have D: "last_dim J = (\<Sum>S\<leftarrow>shapes. prod_list S)" .
  have "compute_ggn E state (x, y)
      = Inr (einsum_nax_nab_nby N C (last_dim J) J (map2 (hess_loss E) logits y))"
    using v sq cat
    by (simp add: compute_ggn_def Let_def Cc logits_def [symmetric] N_def [symmetric]
        ls_def [symmetric])
  then have "compute_ggn E state (x, y)
      = Inr (einsum_nax_nab_nby N C (\<Sum>S\<leftarrow>shapes. prod_list S) J
               (map2 (hess_loss E) logits y))"
    by (simp only: D)
  then show ?thesis
    unfolding J_def N_def logits_def ls_def .
qed

lemma matmul_shape: "has_shape2 m n (matmul m k n A B)"
  by (simp add: matmul_def has_shape2_def)

text \<open>
  Claim C1. For a batch of \<open>N > 0\<close> items with \<open>C > 0\<close> logits each and as many labels, and a
  Jacobian tree whose leaves, in the order of \<^verbatim>\<open>tree_leaves\<close>, have the shapes \<open>[N, C] @ S\<close>
  for the shapes \<open>S\<close> of the parameter leaves, \<^verbatim>\<open>compute_ggn\<close> returns an array of shape
  \<open>[N, D, D]\<close>, where \<open>D\<close> is the total number of entries of the parameter leaves, and its
  item \<open>n\<close> is \<open>J[n]\<^sup>T @ H[n] @ J[n]\<close>: \<open>J[n]\<close> is the \<open>[C, D]\<close> Jacobian of item \<open>n\<close> with
  respect to the flattened parameters and \<open>H[n]\<close> the Hessian that the automatic
  differentiation returns for item \<open>n\<close>.
\<close>

theorem compute_ggn_sandwich:
  assumes "apply_fn E state x = logits" and "length logits = N" and "0 < N"
    and "\<forall>row \<in> set logits. length row = C" and "0 < C" and "length y = N"
    and "tree_leaves E (jacrev_model E state x) = leaves" and "leaves \<noteq> []"
    and "list_all2 (\<lambda>l S. has_shape (N # C # S) l) leaves shapes"
    and "D = (\<Sum>S\<leftarrow>shapes. prod_list S)"
  shows "\<exists>GGN. compute_ggn E state (x, y) = Inr GGN
           \<and> length GGN = N
           \<and> (\<forall>n < N.
                has_shape2 D D (GGN ! n)
                \<and> has_shape2 C D (jacobian_item C leaves n)
                \<and> GGN ! n = matmul D C D
                     (mat_transpose C D (jacobian_item C leaves n))
                     (matmul C C D (hess_loss E (logits ! n) (y ! n))
                        (jacobian_item C leaves n)))"
proof -
  let ?J = "map (jacobian_item C leaves) [0..<N]"
  let ?H = "map2 (hess_loss E) logits y"
  let ?G = "einsum_nax_nab_nby N C D ?J ?H"
  have res: "compute_ggn E state (x, y) = Inr ?G"
    using compute_ggn_result [of E state x C y shapes] assms by simp
  have len: "length ?G = N" by (simp add: einsum_nax_nab_nby_def)
  have item: "has_shape2 D D (?G ! n)
                \<and> has_shape2 C D (jacobian_item C leaves n)
                \<and> ?G ! n = matmul D C D
                     (mat_transpose C D (jacobian_item C leaves n))
                     (matmul C C D (hess_loss E (logits ! n) (y ! n))
                        (jacobian_item C leaves n))" if n: "n < N" for n
  proof -
    have Jn: "?J ! n = jacobian_item C leaves n" using n by simp
    have Hn: "?H ! n = hess_loss E (logits ! n) (y ! n)" using n assms(2,6) by simp
    have "?G ! n = map (\<lambda>x. map (\<lambda>y. (\<Sum>a\<leftarrow>[0..<C]. \<Sum>b\<leftarrow>[0..<C].
                      ?J ! n ! a ! x * ?H ! n ! a ! b * ?J ! n ! b ! y)) [0..<D]) [0..<D]"
      using n by (simp add: einsum_nax_nab_nby_def)
    also have "\<dots> = matmul D C D (mat_transpose C D (?J ! n)) (matmul C C D (?H ! n) (?J ! n))"
      by (rule einsum_item_sandwich)
    finally have eq: "?G ! n = matmul D C D
                     (mat_transpose C D (jacobian_item C leaves n))
                     (matmul C C D (hess_loss E (logits ! n) (y ! n))
                        (jacobian_item C leaves n))"
      by (simp only: Jn Hn)
    have sh: "has_shape2 D D (?G ! n)" unfolding eq by (rule matmul_shape)
    have "length (jacobian_item C leaves n ! a) = D" if "a < C" for a
      unfolding assms(10) by (rule jacobian_item_row_length [OF assms(9) n that])
    then have shJ: "has_shape2 C D (jacobian_item C leaves n)"
      by (auto simp: has_shape2_def in_set_conv_nth) (simp_all add: jacobian_item_def)
    show ?thesis using sh shJ eq by blast
  qed
  show ?thesis using res len item by blast
qed

theorem compute_ggn_sandwich_witness:
  "compute_ggn toy_env [1, 1] ([2, 3], [0, 1])
     = Inr [[[1, - 1], [- 1, 1]], [[9 / 4, - (9 / 4)], [- (9 / 4), 9 / 4]]]
   \<and> jacobian_item 2 (tree_leaves toy_env (jacrev_model toy_env [1, 1] [2, 3])) 1
     = [[3, 0], [0, 3]]
   \<and> hess_loss toy_env (apply_fn toy_env [1, 1] [2, 3] ! 1) ([0, 1] ! 1)
     = [[1 / 4, - (1 / 4)], [- (1 / 4), 1 / 4]]
   \<and> matmul 2 2 2 (mat_transpose 2 2 [[3, 0], [0, 3]])
        (matmul 2 2 2 [[1 / 4, - (1 / 4)], [- (1 / 4), 1 / 4]] [[3, 0], [0, 3]])
     = [[9 / 4, - (9 / 4)], [- (9 / 4), 9 / 4]]"
proof -
  let ?leaves = "[Ar [Ar [Ar [Sc 2, Sc 0], Ar [Sc 0, Sc 2]], Ar [Ar [Sc 3, Sc 0], Ar [Sc 0, Sc 3]]]]"
  have e: "compute_ggn toy_env [1, 1] ([2, 3], [0, 1])
     = Inr [[[1, - 1], [- 1, 1]], [[9 / 4, - (9 / 4)], [- (9 / 4), 9 / 4]]]"
    by code_simp
  have h1: "apply_fn toy_env [1, 1] [2, 3] = [[2, 2], [3, 3]]" by code_simp
  have h7: "tree_leaves toy_env (jacrev_model toy_env [1, 1] [2, 3]) = ?leaves" by code_simp
  have h9: "list_all2 (\<lambda>l S. has_shape (2 # 2 # S) l) ?leaves [[2]]" by simp
  have j: "jacobian_item 2 ?leaves 1 = [[3, 0], [0, 3]]" by code_simp
  have h: "hess_loss toy_env ([[2, 2], [3, 3]] ! 1) ([0, 1] ! 1)
             = [[1 / 4, - (1 / 4)], [- (1 / 4), 1 / 4]]"
    by (simp add: toy_env_def)
  have "\<exists>GGN. compute_ggn toy_env [1, 1] ([2, 3], [0, 1]) = Inr GGN
           \<and> length GGN = 2
           \<and> (\<forall>n < 2.
                has_shape2 2 2 (GGN ! n)
                \<and> has_shape2 2 2 (jacobian_item 2 ?leaves n)
                \<and> GGN ! n = matmul 2 2 2
                     (mat_transpose 2 2 (jacobian_item 2 ?leaves n))
                     (matmul 2 2 2 (hess_loss toy_env ([[2, 2], [3, 3]] ! n) ([0, 1] ! n))
                        (jacobian_item 2 ?leaves n)))"
    by (rule compute_ggn_sandwich [where y = "[0, 1]" and D = 2, OF h1 _ _ _ _ _ h7 _ h9])
      simp_all
  then obtain GGN where g: "compute_ggn toy_env [1, 1] ([2, 3], [0, 1]) = Inr GGN"
    and a: "\<forall>n < 2. has_shape2 2 2 (GGN ! n)
                \<and> has_shape2 2 2 (jacobian_item 2 ?leaves n)
                \<and> GGN ! n = matmul 2 2 2
                     (mat_transpose 2 2 (jacobian_item 2 ?leaves n))
                     (matmul 2 2 2 (hess_loss toy_env ([[2, 2], [3, 3]] ! n) ([0, 1] ! n))
                        (jacobian_item 2 ?leaves n))"
    by blast
  from g e have G: "GGN = [[[1, - 1], [- 1, 1]], [[9 / 4, - (9 / 4)], [- (9 / 4), 9 / 4]]]"
    by simp
  from a have "GGN ! 1 = matmul 2 2 2
                     (mat_transpose 2 2 (jacobian_item 2 ?leaves 1))
                     (matmul 2 2 2 (hess_loss toy_env ([[2, 2], [3, 3]] ! 1) ([0, 1] ! 1))
                        (jacobian_item 2 ?leaves 1))"
    by simp
  then have m: "matmul 2 2 2 (mat_transpose 2 2 [[3, 0], [0, 3]])
        (matmul 2 2 2 [[1 / 4, - (1 / 4)], [- (1 / 4), 1 / 4]] [[3, 0], [0, 3]])
     = [[9 / 4, - (9 / 4)], [- (9 / 4), 9 / 4]]"
    by (simp only: j h G) simp
  show ?thesis
    using e j h m by (simp only: h1 h7)
qed

section \<open>Symmetry and positive semi-definiteness\<close>

lemma sum_list_upt_sum: "(\<Sum>i\<leftarrow>[0..<n]. f i) = (\<Sum>i\<in>{0..<n}. (f i :: real))"
  by (simp add: interv_sum_list_conv_sum_set_nat)

lemma sandwich_sym_sum:
  fixes j h :: "nat \<Rightarrow> nat \<Rightarrow> real"
  assumes "\<And>a b. a < C \<Longrightarrow> b < C \<Longrightarrow> h a b = h b a"
  shows "(\<Sum>a\<in>{0..<C}. \<Sum>b\<in>{0..<C}. j a x * h a b * j b y)
       = (\<Sum>a\<in>{0..<C}. \<Sum>b\<in>{0..<C}. j a y * h a b * j b x)"
proof -
  have "(\<Sum>a\<in>{0..<C}. \<Sum>b\<in>{0..<C}. j a y * h a b * j b x)
      = (\<Sum>b\<in>{0..<C}. \<Sum>a\<in>{0..<C}. j a y * h a b * j b x)"
    by (rule sum.swap)
  also have "\<dots> = (\<Sum>b\<in>{0..<C}. \<Sum>a\<in>{0..<C}. j b x * h b a * j a y)"
    by (intro sum.cong refl) (simp add: assms mult_ac)
  finally show ?thesis by simp
qed

lemma sandwich_quad_sum:
  fixes j h :: "nat \<Rightarrow> nat \<Rightarrow> real" and v :: "nat \<Rightarrow> real"
  shows "(\<Sum>x\<in>X. \<Sum>y\<in>X. v x * (\<Sum>a\<in>A. \<Sum>b\<in>A. j a x * h a b * j b y) * v y)
       = (\<Sum>a\<in>A. \<Sum>b\<in>A. (\<Sum>x\<in>X. j a x * v x) * h a b * (\<Sum>y\<in>X. j b y * v y))"
proof -
  have "(\<Sum>x\<in>X. \<Sum>y\<in>X. v x * (\<Sum>a\<in>A. \<Sum>b\<in>A. j a x * h a b * j b y) * v y)
      = (\<Sum>x\<in>X. \<Sum>y\<in>X. \<Sum>a\<in>A. \<Sum>b\<in>A. j a x * v x * h a b * (j b y * v y))"
    by (simp add: sum_distrib_left sum_distrib_right mult_ac)
  also have "\<dots> = (\<Sum>x\<in>X. \<Sum>a\<in>A. \<Sum>y\<in>X. \<Sum>b\<in>A. j a x * v x * h a b * (j b y * v y))"
    by (rule sum.cong [OF refl]) (rule sum.swap)
  also have "\<dots> = (\<Sum>a\<in>A. \<Sum>x\<in>X. \<Sum>y\<in>X. \<Sum>b\<in>A. j a x * v x * h a b * (j b y * v y))"
    by (rule sum.swap)
  also have "\<dots> = (\<Sum>a\<in>A. \<Sum>x\<in>X. \<Sum>b\<in>A. \<Sum>y\<in>X. j a x * v x * h a b * (j b y * v y))"
    by (rule sum.cong [OF refl], rule sum.cong [OF refl], rule sum.swap)
  also have "\<dots> = (\<Sum>a\<in>A. \<Sum>b\<in>A. \<Sum>x\<in>X. \<Sum>y\<in>X. j a x * v x * h a b * (j b y * v y))"
    by (rule sum.cong [OF refl], rule sum.swap)
  also have "\<dots> = (\<Sum>a\<in>A. \<Sum>b\<in>A. (\<Sum>x\<in>X. j a x * v x) * h a b * (\<Sum>y\<in>X. j b y * v y))"
    by (simp add: sum_distrib_left sum_distrib_right mult_ac)
  finally show ?thesis .
qed

lemma sandwich_item_symmetric:
  fixes Jn Hn :: mat
  assumes sym: "\<forall>a < C. \<forall>b < C. Hn ! a ! b = Hn ! b ! a"
    and G: "G = map (\<lambda>x. map (\<lambda>y. (\<Sum>a\<leftarrow>[0..<C]. \<Sum>b\<leftarrow>[0..<C].
                  Jn ! a ! x * Hn ! a ! b * Jn ! b ! y)) [0..<D]) [0..<D]"
  shows "mat_transpose D D G = G"
proof -
  have S: "(\<Sum>a\<leftarrow>[0..<C]. \<Sum>b\<leftarrow>[0..<C]. Jn ! a ! x * Hn ! a ! b * Jn ! b ! y)
         = (\<Sum>a\<leftarrow>[0..<C]. \<Sum>b\<leftarrow>[0..<C]. Jn ! a ! y * Hn ! a ! b * Jn ! b ! x)" for x y
    unfolding sum_list_upt_sum
    by (rule sandwich_sym_sum [where j = "\<lambda>a x. Jn ! a ! x" and h = "\<lambda>a b. Hn ! a ! b"])
      (simp add: sym)
  have e: "G ! x ! y = (\<Sum>a\<leftarrow>[0..<C]. \<Sum>b\<leftarrow>[0..<C]. Jn ! a ! x * Hn ! a ! b * Jn ! b ! y)"
    if "x < D" and "y < D" for x y
    using that by (simp add: G)
  have "mat_transpose D D G
      = map (\<lambda>j. map (\<lambda>i. (\<Sum>a\<leftarrow>[0..<C]. \<Sum>b\<leftarrow>[0..<C].
                  Jn ! a ! i * Hn ! a ! b * Jn ! b ! j)) [0..<D]) [0..<D]"
    unfolding mat_transpose_def by (intro map_cong refl) (simp add: e)
  also have "\<dots> = map (\<lambda>j. map (\<lambda>i. (\<Sum>a\<leftarrow>[0..<C]. \<Sum>b\<leftarrow>[0..<C].
                  Jn ! a ! j * Hn ! a ! b * Jn ! b ! i)) [0..<D]) [0..<D]"
    by (intro map_cong refl) (rule S)
  also have "\<dots> = G" by (simp add: G)
  finally show ?thesis .
qed

lemma sandwich_item_quad:
  fixes Jn Hn :: mat
  assumes G: "G = map (\<lambda>x. map (\<lambda>y. (\<Sum>a\<leftarrow>[0..<C]. \<Sum>b\<leftarrow>[0..<C].
                  Jn ! a ! x * Hn ! a ! b * Jn ! b ! y)) [0..<D]) [0..<D]"
  shows "quad_form D G v
       = quad_form C Hn (map (\<lambda>a. (\<Sum>x\<leftarrow>[0..<D]. Jn ! a ! x * v ! x)) [0..<C])"
proof -
  let ?u = "map (\<lambda>a. (\<Sum>x\<leftarrow>[0..<D]. Jn ! a ! x * v ! x)) [0..<C]"
  have e: "G ! x ! y = (\<Sum>a\<in>{0..<C}. \<Sum>b\<in>{0..<C}. Jn ! a ! x * Hn ! a ! b * Jn ! b ! y)"
    if "x < D" and "y < D" for x y
    using that by (simp add: G sum_list_upt_sum)
  have "quad_form D G v = (\<Sum>x\<in>{0..<D}. \<Sum>y\<in>{0..<D}. v ! x * G ! x ! y * v ! y)"
    by (simp add: quad_form_def sum_list_upt_sum)
  also have "\<dots> = (\<Sum>x\<in>{0..<D}. \<Sum>y\<in>{0..<D}.
       v ! x * (\<Sum>a\<in>{0..<C}. \<Sum>b\<in>{0..<C}. Jn ! a ! x * Hn ! a ! b * Jn ! b ! y) * v ! y)"
    by (intro sum.cong refl) (simp add: e)
  also have "\<dots> = (\<Sum>a\<in>{0..<C}. \<Sum>b\<in>{0..<C}.
       (\<Sum>x\<in>{0..<D}. Jn ! a ! x * v ! x) * Hn ! a ! b * (\<Sum>y\<in>{0..<D}. Jn ! b ! y * v ! y))"
    by (rule sandwich_quad_sum [where j = "\<lambda>a x. Jn ! a ! x" and h = "\<lambda>a b. Hn ! a ! b"
          and v = "\<lambda>x. v ! x"])
  also have "\<dots> = (\<Sum>a\<in>{0..<C}. \<Sum>b\<in>{0..<C}. ?u ! a * Hn ! a ! b * ?u ! b)"
    by (intro sum.cong refl) (simp add: sum_list_upt_sum)
  also have "\<dots> = quad_form C Hn ?u"
    by (simp add: quad_form_def sum_list_upt_sum)
  finally show ?thesis .
qed

lemma sum_list_exp_pos:
  assumes "z \<noteq> []"
  shows "0 < (\<Sum>w\<leftarrow>z. exp (w :: real))"
proof -
  obtain a rest where z: "z = a # rest" using assms by (cases z) auto
  have "0 \<le> (\<Sum>w\<leftarrow>rest. exp w)" by (rule sum_list_nonneg) auto
  moreover have "0 < exp a" by simp
  ultimately have "0 < exp a + (\<Sum>w\<leftarrow>rest. exp w)" by (rule add_pos_nonneg [rotated])
  then show ?thesis unfolding z by simp
qed

lemma softmax_nonneg: "a < length z \<Longrightarrow> 0 \<le> softmax z ! a"
proof -
  assume a: "a < length z"
  have "0 \<le> (\<Sum>w\<leftarrow>z. exp w)" by (rule sum_list_nonneg) auto
  then have "0 \<le> exp (z ! a) / (\<Sum>w\<leftarrow>z. exp w)" by simp
  then show ?thesis using a by (simp add: softmax_def)
qed

lemma softmax_sums_to_one:
  assumes "z \<noteq> []"
  shows "(\<Sum>a\<in>{0..<length z}. softmax z ! a) = 1"
proof -
  let ?S = "\<Sum>w\<leftarrow>z. exp w"
  have S: "?S \<noteq> 0" using sum_list_exp_pos [OF assms] by simp
  have "?S = (\<Sum>a\<in>{0..<length (map exp z)}. map exp z ! a)"
    by (rule sum_list_sum_nth)
  also have "\<dots> = (\<Sum>a\<in>{0..<length z}. exp (z ! a))"
    by (intro sum.cong) simp_all
  finally have e: "(\<Sum>a\<in>{0..<length z}. exp (z ! a)) = ?S" by simp
  have "(\<Sum>a\<in>{0..<length z}. softmax z ! a) = (\<Sum>a\<in>{0..<length z}. exp (z ! a) / ?S)"
    by (intro sum.cong refl) (simp add: softmax_def)
  also have "\<dots> = (\<Sum>a\<in>{0..<length z}. exp (z ! a)) / ?S"
    by (simp add: sum_divide_distrib)
  also have "\<dots> = 1" using S by (simp add: e)
  finally show ?thesis .
qed

lemma weighted_variance_nonneg:
  fixes p u :: "nat \<Rightarrow> real"
  assumes p: "\<And>a. a \<in> A \<Longrightarrow> 0 \<le> p a" and one: "(\<Sum>a\<in>A. p a) = 1"
  shows "0 \<le> (\<Sum>a\<in>A. p a * u a * u a) - (\<Sum>a\<in>A. p a * u a) * (\<Sum>a\<in>A. p a * u a)"
proof -
  define m where "m = (\<Sum>a\<in>A. p a * u a)"
  have "0 \<le> (\<Sum>a\<in>A. p a * (u a - m)\<^sup>2)"
    by (intro sum_nonneg mult_nonneg_nonneg p zero_le_power2)
  also have "(\<Sum>a\<in>A. p a * (u a - m)\<^sup>2)
      = (\<Sum>a\<in>A. p a * u a * u a - 2 * m * (p a * u a) + m * m * p a)"
    by (intro sum.cong refl) (simp add: power2_eq_square algebra_simps)
  also have "\<dots> = (\<Sum>a\<in>A. p a * u a * u a) - 2 * m * (\<Sum>a\<in>A. p a * u a) + m * m * (\<Sum>a\<in>A. p a)"
    by (simp add: sum.distrib sum_subtractf sum_distrib_left)
  also have "\<dots> = (\<Sum>a\<in>A. p a * u a * u a) - m * m"
    by (simp add: one m_def [symmetric])
  finally show ?thesis by (simp add: m_def)
qed

lemma softmax_hessian_entry:
  assumes "a < length z" and "b < length z"
  shows "softmax_hessian z ! a ! b
       = (if a = b then softmax z ! a else 0) - softmax z ! a * softmax z ! b"
  using assms by (simp add: softmax_hessian_def)

lemma softmax_hessian_symmetric:
  "a < length z \<Longrightarrow> b < length z \<Longrightarrow> softmax_hessian z ! a ! b = softmax_hessian z ! b ! a"
  by (simp add: softmax_hessian_entry)

lemma softmax_hessian_psd:
  assumes "z \<noteq> []"
  shows "0 \<le> quad_form (length z) (softmax_hessian z) u"
proof -
  let ?C = "{0..<length z}"
  let ?p = "\<lambda>a. softmax z ! a"
  have "quad_form (length z) (softmax_hessian z) u
      = (\<Sum>a\<in>?C. \<Sum>b\<in>?C. u ! a * softmax_hessian z ! a ! b * u ! b)"
    by (simp add: quad_form_def sum_list_upt_sum)
  also have "\<dots> = (\<Sum>a\<in>?C. \<Sum>b\<in>?C.
       (if a = b then ?p a * u ! a * u ! a else 0) - (?p a * u ! a) * (?p b * u ! b))"
    by (intro sum.cong refl) (simp add: softmax_hessian_entry algebra_simps)
  also have "\<dots> = (\<Sum>a\<in>?C. ?p a * u ! a * u ! a - (?p a * u ! a) * (\<Sum>b\<in>?C. ?p b * u ! b))"
    by (intro sum.cong refl) (simp add: sum_subtractf sum_distrib_left)
  also have "\<dots> = (\<Sum>a\<in>?C. ?p a * u ! a * u ! a)
                  - (\<Sum>a\<in>?C. ?p a * u ! a) * (\<Sum>b\<in>?C. ?p b * u ! b)"
    by (simp add: sum_subtractf sum_distrib_right)
  finally have "quad_form (length z) (softmax_hessian z) u
      = (\<Sum>a\<in>?C. ?p a * u ! a * u ! a)
        - (\<Sum>a\<in>?C. ?p a * u ! a) * (\<Sum>a\<in>?C. ?p a * u ! a)" .
  moreover have "0 \<le> (\<Sum>a\<in>?C. ?p a * u ! a * u ! a)
        - (\<Sum>a\<in>?C. ?p a * u ! a) * (\<Sum>a\<in>?C. ?p a * u ! a)"
    by (rule weighted_variance_nonneg [where p = ?p and u = "\<lambda>a. u ! a"])
      (simp_all add: softmax_nonneg softmax_sums_to_one [OF assms])
  ultimately show ?thesis by simp
qed

lemma softmax_equal_logits: "softmax [v, v] = [1 / 2, 1 / 2]"
proof -
  have "exp v / (exp v + exp v) = 1 / 2"
    using exp_not_eq_zero [of v] by (simp add: field_simps)
  then show ?thesis by (simp add: softmax_def)
qed

lemma softmax_hessian_equal_logits:
  "softmax_hessian [v, v] = [[1 / 4, - (1 / 4)], [- (1 / 4), 1 / 4]]"
  by (simp add: softmax_hessian_def softmax_equal_logits upt_rec numeral_2_eq_2)

lemma sandwich_symmetric_psd:
  assumes "apply_fn E state x = logits" and "length logits = N" and "0 < N"
    and "\<forall>row \<in> set logits. length row = C" and "0 < C" and "length y = N"
    and "tree_leaves E (jacrev_model E state x) = leaves" and "leaves \<noteq> []"
    and "list_all2 (\<lambda>l S. has_shape (N # C # S) l) leaves shapes"
    and "D = (\<Sum>S\<leftarrow>shapes. prod_list S)"
    and sym: "\<forall>n < N. \<forall>a < C. \<forall>b < C.
                hess_loss E (logits ! n) (y ! n) ! a ! b = hess_loss E (logits ! n) (y ! n) ! b ! a"
    and psd: "\<forall>n < N. \<forall>u. length u = C \<longrightarrow> 0 \<le> quad_form C (hess_loss E (logits ! n) (y ! n)) u"
  shows "\<exists>GGN. compute_ggn E state (x, y) = Inr GGN
           \<and> length GGN = N
           \<and> (\<forall>n < N. mat_transpose D D (GGN ! n) = GGN ! n
                \<and> (\<forall>v. length v = D \<longrightarrow> 0 \<le> quad_form D (GGN ! n) v))"
proof -
  let ?J = "map (jacobian_item C leaves) [0..<N]"
  let ?H = "map2 (hess_loss E) logits y"
  let ?G = "einsum_nax_nab_nby N C D ?J ?H"
  have res: "compute_ggn E state (x, y) = Inr ?G"
    using compute_ggn_result [of E state x C y shapes] assms(1-10) by simp
  have len: "length ?G = N" by (simp add: einsum_nax_nab_nby_def)
  have item: "mat_transpose D D (?G ! n) = ?G ! n
                \<and> (\<forall>v. length v = D \<longrightarrow> 0 \<le> quad_form D (?G ! n) v)" if n: "n < N" for n
  proof -
    let ?Jn = "jacobian_item C leaves n"
    let ?Hn = "hess_loss E (logits ! n) (y ! n)"
    have Jn: "?J ! n = ?Jn" using n by simp
    have Hn: "?H ! n = ?Hn" using n assms(2,6) by simp
    have "?G ! n = map (\<lambda>x. map (\<lambda>y. (\<Sum>a\<leftarrow>[0..<C]. \<Sum>b\<leftarrow>[0..<C].
                      ?J ! n ! a ! x * ?H ! n ! a ! b * ?J ! n ! b ! y)) [0..<D]) [0..<D]"
      using n by (simp add: einsum_nax_nab_nby_def)
    then have G: "?G ! n = map (\<lambda>x. map (\<lambda>y. (\<Sum>a\<leftarrow>[0..<C]. \<Sum>b\<leftarrow>[0..<C].
                      ?Jn ! a ! x * ?Hn ! a ! b * ?Jn ! b ! y)) [0..<D]) [0..<D]"
      by (simp only: Jn Hn)
    have s: "\<forall>a < C. \<forall>b < C. ?Hn ! a ! b = ?Hn ! b ! a" using sym n by blast
    have t: "mat_transpose D D (?G ! n) = ?G ! n"
      by (rule sandwich_item_symmetric [OF s G])
    have q: "0 \<le> quad_form D (?G ! n) v" for v
    proof -
      let ?u = "map (\<lambda>a. (\<Sum>x\<leftarrow>[0..<D]. ?Jn ! a ! x * v ! x)) [0..<C]"
      have "length ?u = C" by simp
      then have "0 \<le> quad_form C ?Hn ?u" using psd n by blast
      then show ?thesis by (simp only: sandwich_item_quad [OF G])
    qed
    show ?thesis using t q by blast
  qed
  show ?thesis using res len item by blast
qed

text \<open>
  Claim C7. Under the shape conditions of C1, when the Hessian that the automatic
  differentiation returns for every item is the Hessian of the softmax cross-entropy loss
  at that item's logits, which is symmetric and positive semi-definite, every item of the
  result of \<^verbatim>\<open>compute_ggn\<close> equals its transpose and has a non-negative quadratic form on
  every vector of length \<open>D\<close>.
\<close>

theorem ggn_symmetric_psd:
  assumes "apply_fn E state x = logits" and "length logits = N" and "0 < N"
    and "\<forall>row \<in> set logits. length row = C" and "0 < C" and "length y = N"
    and "tree_leaves E (jacrev_model E state x) = leaves" and "leaves \<noteq> []"
    and "list_all2 (\<lambda>l S. has_shape (N # C # S) l) leaves shapes"
    and "D = (\<Sum>S\<leftarrow>shapes. prod_list S)"
    and hess: "\<forall>n < N. hess_loss E (logits ! n) (y ! n) = softmax_hessian (logits ! n)"
  shows "\<exists>GGN. compute_ggn E state (x, y) = Inr GGN
           \<and> length GGN = N
           \<and> (\<forall>n < N. mat_transpose D D (GGN ! n) = GGN ! n
                \<and> (\<forall>v. length v = D \<longrightarrow> 0 \<le> quad_form D (GGN ! n) v))"
proof -
  have row: "length (logits ! n) = C \<and> logits ! n \<noteq> []" if "n < N" for n
  proof -
    have "logits ! n \<in> set logits" using that assms(2) by simp
    then have "length (logits ! n) = C" using assms(4) by blast
    then show ?thesis using assms(5) by auto
  qed
  have sym: "\<forall>n < N. \<forall>a < C. \<forall>b < C.
                hess_loss E (logits ! n) (y ! n) ! a ! b = hess_loss E (logits ! n) (y ! n) ! b ! a"
  proof (intro allI impI)
    fix n a b assume n: "n < N" and a: "a < C" and b: "b < C"
    have "softmax_hessian (logits ! n) ! a ! b = softmax_hessian (logits ! n) ! b ! a"
      using row [OF n] a b by (intro softmax_hessian_symmetric) simp_all
    then show "hess_loss E (logits ! n) (y ! n) ! a ! b = hess_loss E (logits ! n) (y ! n) ! b ! a"
      using hess n by simp
  qed
  have psd: "\<forall>n < N. \<forall>u. length u = C \<longrightarrow> 0 \<le> quad_form C (hess_loss E (logits ! n) (y ! n)) u"
  proof (intro allI impI)
    fix n u assume n: "n < N"
    have "0 \<le> quad_form (length (logits ! n)) (softmax_hessian (logits ! n)) u"
      using row [OF n] by (intro softmax_hessian_psd) simp
    then show "0 \<le> quad_form C (hess_loss E (logits ! n) (y ! n)) u"
      using hess n row [OF n] by simp
  qed
  show ?thesis
    by (rule sandwich_symmetric_psd [OF assms(1-10) sym psd])
qed

theorem ggn_symmetric_psd_witness:
  "compute_ggn toy_env [1, 1] ([2, 3], [0, 1])
     = Inr [[[1, - 1], [- 1, 1]], [[9 / 4, - (9 / 4)], [- (9 / 4), 9 / 4]]]
   \<and> softmax_hessian [3, 3] = [[1 / 4, - (1 / 4)], [- (1 / 4), 1 / 4]]
   \<and> mat_transpose 2 2 [[9 / 4, - (9 / 4)], [- (9 / 4), 9 / 4]]
     = [[9 / 4, - (9 / 4)], [- (9 / 4), 9 / 4]]
   \<and> 0 \<le> quad_form 2 [[9 / 4, - (9 / 4)], [- (9 / 4), 9 / 4]] [1, - 2]
   \<and> quad_form 2 [[9 / 4, - (9 / 4)], [- (9 / 4), 9 / 4]] [1, - 2] = 81 / 4"
proof -
  let ?leaves = "[Ar [Ar [Ar [Sc 2, Sc 0], Ar [Sc 0, Sc 2]], Ar [Ar [Sc 3, Sc 0], Ar [Sc 0, Sc 3]]]]"
  have e: "compute_ggn toy_env [1, 1] ([2, 3], [0, 1])
     = Inr [[[1, - 1], [- 1, 1]], [[9 / 4, - (9 / 4)], [- (9 / 4), 9 / 4]]]"
    by code_simp
  have h1: "apply_fn toy_env [1, 1] [2, 3] = [[2, 2], [3, 3]]" by code_simp
  have h7: "tree_leaves toy_env (jacrev_model toy_env [1, 1] [2, 3]) = ?leaves" by code_simp
  have h9: "list_all2 (\<lambda>l S. has_shape (2 # 2 # S) l) ?leaves [[2]]" by simp
  have hess: "\<forall>n < 2. hess_loss toy_env ([[2, 2], [3, 3]] ! n) ([0, 1] ! n)
                = softmax_hessian ([[2, 2], [3, 3]] ! n)"
    by (simp add: toy_env_def softmax_hessian_equal_logits less_Suc_eq numeral_2_eq_2)
  have "\<exists>GGN. compute_ggn toy_env [1, 1] ([2, 3], [0, 1]) = Inr GGN
           \<and> length GGN = 2
           \<and> (\<forall>n < 2. mat_transpose 2 2 (GGN ! n) = GGN ! n
                \<and> (\<forall>v. length v = 2 \<longrightarrow> 0 \<le> quad_form 2 (GGN ! n) v))"
    by (rule ggn_symmetric_psd [where y = "[0, 1]" and D = 2, OF h1 _ _ _ _ _ h7 _ h9 _ hess])
      simp_all
  then obtain GGN where g: "compute_ggn toy_env [1, 1] ([2, 3], [0, 1]) = Inr GGN"
    and a: "\<forall>n < 2. mat_transpose 2 2 (GGN ! n) = GGN ! n
                \<and> (\<forall>v. length v = 2 \<longrightarrow> 0 \<le> quad_form 2 (GGN ! n) v)"
    by blast
  from g e have G: "GGN = [[[1, - 1], [- 1, 1]], [[9 / 4, - (9 / 4)], [- (9 / 4), 9 / 4]]]"
    by simp
  from a have t: "mat_transpose 2 2 (GGN ! 1) = GGN ! 1"
    and q: "0 \<le> quad_form 2 (GGN ! 1) [1, - 2]"
    by simp_all
  have v: "quad_form 2 [[9 / 4, - (9 / 4)], [- (9 / 4), 9 / 4]] [1, - 2] = 81 / 4"
    by code_simp
  have sh: "softmax_hessian [3, 3] = [[1 / 4, - (1 / 4)], [- (1 / 4), 1 / 4]]"
    by (rule softmax_hessian_equal_logits)
  show ?thesis
    using e t q v sh by (simp add: G)
qed

end
